theory Spec2Isabelle
  imports Complex_Main "HOL-Library.Log_Nat"
begin

section \<open>The rolling statistics window of \<^verbatim>\<open>lib/status.js\<close>\<close>

text \<open>
  The class \<^verbatim>\<open>Status\<close> keeps an array of bucket objects, mutates the bucket at index 0,
  rotates the array on a timer and reduces it on every read of \<^verbatim>\<open>stats\<close>.  Arrays and
  buckets are JavaScript objects: they have identity, and a reference to one can be held in
  several places.  The embedding therefore keeps an explicit store of objects, addressed by
  natural numbers, and every operation of the class passes the store along.

  JavaScript numbers are doubles.  A number is written here as the rational it denotes, and
  the arithmetic of the code on fractions is rounded as the machine rounds it: the product
  in \<^verbatim>\<open>calculatePercentile\<close> and the sum and the quotient of the latency mean.  Counters
  are natural numbers: they are whole, grow by one per call, and whole-number arithmetic of
  doubles is exact below \<open>2\<^sup>5\<^sup>3\<close>.  Latencies are taken to be doubles as they come in.
  The values \<^verbatim>\<open>NaN\<close> and the infinities are outside the model.  Timers are outside the
  model as well: the callback that \<^verbatim>\<open>setInterval\<close> fires is the function \<open>nextBucket\<close>,
  applied whenever the environment decides.
\<close>

subsection \<open>Objects and the store\<close>

type_synonym ref = nat

text \<open>
  The object literal returned by \<^verbatim>\<open>bucket()\<close> has nine counters, \<^verbatim>\<open>percentiles\<close> and
  \<^verbatim>\<open>latencyTimes\<close>.  Two further properties are added to such objects later, by assignment:
  \<^verbatim>\<open>isCircuitBreakerOpen\<close> (in \<^verbatim>\<open>open\<close> and \<^verbatim>\<open>close\<close>) and \<^verbatim>\<open>latencyMean\<close> (in \<^verbatim>\<open>stats\<close>).
  A property that has not been assigned yet reads as \<^verbatim>\<open>undefined\<close>; that is \<open>None\<close> here.
\<close>

record Bucket =
  failures :: nat
  fallbacks :: nat
  successes :: nat
  rejects :: nat
  fires :: nat
  timeouts :: nat
  cacheHits :: nat
  cacheMisses :: nat
  semaphoreRejections :: nat
  percentiles :: "rat \<rightharpoonup> rat"
  latencyTimes :: "rat list"
  isCircuitBreakerOpen :: "bool option"
  latencyMean :: "rat option"

text \<open>An array slot holds a reference to an object, or \<^verbatim>\<open>undefined\<close> (a hole).\<close>

datatype obj = Bucket_obj Bucket | Array_obj "ref option list"

type_synonym heap = "obj list"

datatype error = RangeError | TypeError

definition alloc :: "heap \<Rightarrow> obj \<Rightarrow> ref \<times> heap" where
  "alloc h v = (length h, h @ [v])"

text \<open>
  Reading an array through a reference.  A reference that does not address an array cannot
  arise in the program; such a state reads as the empty array.
\<close>

definition array_of :: "heap \<Rightarrow> ref \<Rightarrow> ref option list" where
  "array_of h a =
     (if a < length h then (case h ! a of Array_obj w \<Rightarrow> w | Bucket_obj _ \<Rightarrow> []) else [])"

definition array_store :: "heap \<Rightarrow> ref \<Rightarrow> ref option list \<Rightarrow> heap" where
  "array_store h a w = h[a := Array_obj w]"

text \<open>
  The value of an array slot as the code sees it: a bucket object, or \<^verbatim>\<open>undefined\<close>.
\<close>

definition bucket_of :: "heap \<Rightarrow> ref option \<Rightarrow> Bucket option" where
  "bucket_of h slot =
     (case slot of
        None \<Rightarrow> None
      | Some a \<Rightarrow>
          (if a < length h then (case h ! a of Bucket_obj b \<Rightarrow> Some b | Array_obj _ \<Rightarrow> None)
           else None))"

text \<open>\<^verbatim>\<open>arr[i]\<close>: \<^verbatim>\<open>undefined\<close> outside the array.\<close>

definition js_index :: "'a list \<Rightarrow> int \<Rightarrow> 'a option" where
  "js_index arr i = (if 0 \<le> i \<and> i < int (length arr) then Some (arr ! nat i) else None)"

text \<open>\<^verbatim>\<open>arr[i] = v\<close>: an assignment past the end extends the array with holes.\<close>

definition js_set :: "'a option list \<Rightarrow> nat \<Rightarrow> 'a option \<Rightarrow> 'a option list" where
  "js_set arr i v =
     (if i < length arr then arr[i := v] else arr @ replicate (i - length arr) None @ [v])"

text \<open>\<^verbatim>\<open>v || 0\<close> on a number or \<^verbatim>\<open>undefined\<close>: both \<^verbatim>\<open>undefined\<close> and \<^verbatim>\<open>0\<close> are falsy.\<close>

definition or_zero :: "rat option \<Rightarrow> rat" where
  "or_zero v = (case v of None \<Rightarrow> 0 | Some x \<Rightarrow> (if x = 0 then 0 else x))"

subsection \<open>Numbers\<close>

text \<open>
  Rounding to the nearest double, ties to even.  A double with exponent \<open>e\<close> is a whole
  multiple of \<open>2\<^sup>e\<^sup>-\<^sup>5\<^sup>2\<close>; below \<open>2\<^sup>-\<^sup>1\<^sup>0\<^sup>2\<^sup>2\<close> the spacing stays that of the exponent
  \<open>-1022\<close> (gradual underflow).  \<open>ilog2 x\<close> is the exponent of a positive \<open>x\<close>, the whole
  number \<open>e\<close> with \<open>2\<^sup>e \<le> x < 2\<^sup>e\<^sup>+\<^sup>1\<close>.  The overflow to infinity beyond the largest double is
  left out, as the infinities are.
\<close>

definition rne :: "rat \<Rightarrow> int" where
  "rne y =
     (if y - of_int \<lfloor>y\<rfloor> = 1 / 2 then (if even \<lfloor>y\<rfloor> then \<lfloor>y\<rfloor> else \<lfloor>y\<rfloor> + 1)
      else \<lfloor>y + 1 / 2\<rfloor>)"

definition ilog2 :: "rat \<Rightarrow> int" where
  "ilog2 x =
     (if 1 \<le> x then int (floorlog 2 (nat \<lfloor>x\<rfloor>)) - 1
      else - int (floorlog 2 (nat (\<lceil>1 / x\<rceil> - 1))))"

definition double :: "rat \<Rightarrow> rat" where
  "double x =
     (if x = 0 then 0
      else (let e = max (ilog2 \<bar>x\<bar>) (- 1022);
                ulp = 2 powi (e - 52)
            in sgn x * of_int (rne (\<bar>x\<bar> / ulp)) * ulp))"

subsection \<open>\<^verbatim>\<open>bucket\<close>, \<^verbatim>\<open>nextBucket\<close>, \<^verbatim>\<open>calculatePercentile\<close>\<close>

definition bucket :: Bucket where
  "bucket =
     \<lparr> failures = 0, fallbacks = 0, successes = 0, rejects = 0, fires = 0, timeouts = 0,
       cacheHits = 0, cacheMisses = 0, semaphoreRejections = 0,
       percentiles = Map.empty, latencyTimes = [],
       isCircuitBreakerOpen = None, latencyMean = None \<rparr>"

text \<open>\<^verbatim>\<open>window.pop()\<close> on an empty array removes nothing.\<close>

definition array_pop :: "heap \<Rightarrow> ref \<Rightarrow> heap" where
  "array_pop h a = array_store h a (butlast (array_of h a))"

definition array_unshift :: "heap \<Rightarrow> ref \<Rightarrow> ref option \<Rightarrow> heap" where
  "array_unshift h a v = array_store h a (v # array_of h a)"

definition nextBucket :: "ref \<Rightarrow> heap \<Rightarrow> heap" where
  "nextBucket window h =
     (let h1 = array_pop h window;
          (b, h2) = alloc h1 (Bucket_obj bucket)
      in array_unshift h2 window (Some b))"

text \<open>
  The argument \<open>percentile\<close> is the number as the program text writes it (\<^verbatim>\<open>0.9\<close> is
  \<open>9/10\<close>); the value the code holds is the double nearest to it, and the product with the
  length is rounded again before \<^verbatim>\<open>Math.ceil\<close>.  A length is a whole number below
  \<open>2\<^sup>3\<^sup>2\<close> and therefore a double.
\<close>

definition calculatePercentile :: "rat \<Rightarrow> rat list \<Rightarrow> rat" where
  "calculatePercentile percentile arr =
     (if double percentile = 0 then or_zero (js_index arr 0)
      else (let idx = \<lceil>double (double percentile * of_nat (length arr))\<rceil>
            in or_zero (js_index arr (idx - 1))))"

subsection \<open>The class \<^verbatim>\<open>Status\<close>\<close>

record options =
  rollingCountBuckets :: int
  rollingCountTimeout :: int
  rollingPercentilesEnabled :: bool

record Status =
  WINDOW :: ref
  BUCKETS :: int
  TIMEOUT :: int
  PERCENTILES :: "rat list"
  percentilesEnabled :: bool

text \<open>
  \<^verbatim>\<open>new Array(len)\<close> throws a \<^verbatim>\<open>RangeError\<close> unless \<open>len\<close> is an array length, an integer
  from 0 to \<open>2\<^sup>3\<^sup>2 - 1\<close>; otherwise it is an array of \<open>len\<close> holes.
\<close>

definition new_Array :: "int \<Rightarrow> error + ref option list" where
  "new_Array len =
     (if len < 0 \<or> 2 ^ 32 \<le> len then Inl RangeError else Inr (replicate (nat len) None))"

text \<open>
  The priming loop
  \<^verbatim>\<open>for (let i = 0; i < this[BUCKETS]; i++) this[WINDOW][i] = bucket();\<close>
\<close>

function prime :: "nat \<Rightarrow> int \<Rightarrow> ref \<Rightarrow> heap \<Rightarrow> heap" where
  "prime i n window h =
     (if int i < n then
        (let (b, h1) = alloc h (Bucket_obj bucket)
         in prime (Suc i) n window (array_store h1 window (js_set (array_of h1 window) i (Some b))))
      else h)"
  by pat_completeness auto
termination
  by (relation "measure (\<lambda>(i, n, window, h). nat (n - int i))") auto

declare prime.simps [simp del]

text \<open>
  The period handed to both calls of \<^verbatim>\<open>setInterval\<close>,
  \<^verbatim>\<open>Math.floor(this[TIMEOUT] / this[BUCKETS])\<close>.  Division by zero does not throw in
  JavaScript: it gives an infinity or \<^verbatim>\<open>NaN\<close>, and so does the floor of it.
\<close>

datatype interval = Millis int | NotFinite

definition bucketInterval :: "int \<Rightarrow> int \<Rightarrow> interval" where
  "bucketInterval timeout buckets =
     (if buckets = 0 then NotFinite
      else Millis \<lfloor>(of_int timeout :: rat) / of_int buckets\<rfloor>)"

text \<open>
  The constructor.  Its only statement that can throw is \<^verbatim>\<open>new Array\<close>; \<^verbatim>\<open>setInterval\<close>
  accepts any period.  The field \<^verbatim>\<open>rollingPercentilesEnabled\<close> of the instance is
  \<open>percentilesEnabled\<close> here.
\<close>

definition constructor :: "heap \<Rightarrow> options \<Rightarrow> error + heap \<times> Status" where
  "constructor h opts =
     (case new_Array (rollingCountBuckets opts) of
        Inl e \<Rightarrow> Inl e
      | Inr holes \<Rightarrow>
          (let (w, h1) = alloc h (Array_obj holes);
               this = \<lparr> WINDOW = w,
                        BUCKETS = rollingCountBuckets opts,
                        TIMEOUT = rollingCountTimeout opts,
                        PERCENTILES = [0, 1/4, 1/2, 3/4, 9/10, 19/20, 99/100, 199/200, 1],
                        percentilesEnabled = rollingPercentilesEnabled opts \<rparr>
           in Inr (prime 0 (BUCKETS this) (WINDOW this) h1, this)))"

text \<open>
  The reducer of \<^verbatim>\<open>stats\<close>: every key of the accumulator other than \<^verbatim>\<open>latencyTimes\<close> and
  \<^verbatim>\<open>percentiles\<close> is a counter (the accumulator starts as \<^verbatim>\<open>bucket()\<close>, which has no other
  key), and the counter of the bucket is added to it.
\<close>

definition add_counters :: "Bucket \<Rightarrow> Bucket \<Rightarrow> Bucket" where
  "add_counters acc val =
     acc\<lparr> failures := failures acc + failures val,
          fallbacks := fallbacks acc + fallbacks val,
          successes := successes acc + successes val,
          rejects := rejects acc + rejects val,
          fires := fires acc + fires val,
          timeouts := timeouts acc + timeouts val,
          cacheHits := cacheHits acc + cacheHits val,
          cacheMisses := cacheMisses acc + cacheMisses val,
          semaphoreRejections := semaphoreRejections acc + semaphoreRejections val \<rparr>"

definition reducer :: "bool \<Rightarrow> heap \<Rightarrow> Bucket \<Rightarrow> ref option \<Rightarrow> Bucket" where
  "reducer enabled h acc slot =
     (case bucket_of h slot of
        None \<Rightarrow> acc
      | Some val \<Rightarrow>
          (let acc1 = add_counters acc val
           in if enabled then acc1\<lparr> latencyTimes := latencyTimes acc1 @ latencyTimes val \<rparr>
              else acc1))"

definition stats :: "heap \<Rightarrow> Status \<Rightarrow> Bucket" where
  "stats h this =
     (let totals = foldl (reducer (percentilesEnabled this) h) bucket (array_of h (WINDOW this))
      in if percentilesEnabled this then
           (let totals1 = totals\<lparr> latencyTimes := sort (latencyTimes totals) \<rparr>;
                totals2 =
                  (if length (latencyTimes totals1) \<noteq> 0 then
                     totals1\<lparr> latencyMean :=
                       Some (double (foldl (\<lambda>a b. double (a + b)) 0 (latencyTimes totals1)
                                     / of_nat (length (latencyTimes totals1)))) \<rparr>
                   else totals1\<lparr> latencyMean := Some 0 \<rparr>)
            in foldl (\<lambda>t percentile.
                        t\<lparr> percentiles := (percentiles t)
                              (percentile \<mapsto> calculatePercentile percentile (latencyTimes t)) \<rparr>)
                 totals2 (PERCENTILES this))
         else
           foldl (\<lambda>t percentile. t\<lparr> percentiles := (percentiles t)(percentile \<mapsto> - 1) \<rparr>)
             (totals\<lparr> latencyMean := Some (- 1) \<rparr>) (PERCENTILES this))"

text \<open>The accessor \<^verbatim>\<open>window\<close>: \<^verbatim>\<open>slice()\<close> allocates a new array with the same slots.\<close>

definition window :: "heap \<Rightarrow> Status \<Rightarrow> ref \<times> heap" where
  "window h this = alloc h (Array_obj (array_of h (WINDOW this)))"

text \<open>The nine event kinds that the owning breaker passes to \<^verbatim>\<open>increment\<close>.\<close>

datatype event =
  Failures | Fallbacks | Successes | Rejects | Fires | Timeouts
  | CacheHits | CacheMisses | SemaphoreRejections

fun plusplus :: "event \<Rightarrow> Bucket \<Rightarrow> Bucket" where
  "plusplus Failures b = b\<lparr> failures := failures b + 1 \<rparr>"
| "plusplus Fallbacks b = b\<lparr> fallbacks := fallbacks b + 1 \<rparr>"
| "plusplus Successes b = b\<lparr> successes := successes b + 1 \<rparr>"
| "plusplus Rejects b = b\<lparr> rejects := rejects b + 1 \<rparr>"
| "plusplus Fires b = b\<lparr> fires := fires b + 1 \<rparr>"
| "plusplus Timeouts b = b\<lparr> timeouts := timeouts b + 1 \<rparr>"
| "plusplus CacheHits b = b\<lparr> cacheHits := cacheHits b + 1 \<rparr>"
| "plusplus CacheMisses b = b\<lparr> cacheMisses := cacheMisses b + 1 \<rparr>"
| "plusplus SemaphoreRejections b = b\<lparr> semaphoreRejections := semaphoreRejections b + 1 \<rparr>"

text \<open>
  \<^verbatim>\<open>this[WINDOW][0]\<close> as an object to assign into: the reference in slot 0 and the bucket
  it addresses.  Assigning a property of \<^verbatim>\<open>undefined\<close> throws a \<^verbatim>\<open>TypeError\<close>.
\<close>

definition current :: "heap \<Rightarrow> Status \<Rightarrow> error + ref \<times> Bucket" where
  "current h this =
     (case js_index (array_of h (WINDOW this)) 0 of
        Some (Some a) \<Rightarrow>
          (case bucket_of h (Some a) of
             None \<Rightarrow> Inl TypeError
           | Some b \<Rightarrow> Inr (a, b))
      | _ \<Rightarrow> Inl TypeError)"

definition increment :: "heap \<Rightarrow> Status \<Rightarrow> event \<Rightarrow> rat option \<Rightarrow> error + heap" where
  "increment h this property latencyRunTime =
     (case current h this of
        Inl e \<Rightarrow> Inl e
      | Inr (a, b) \<Rightarrow>
          (let b1 = plusplus property b;
               b2 = (if property = Successes \<or> property = Failures \<or> property = Timeouts
                     then b1\<lparr> latencyTimes := latencyTimes b1 @ [or_zero latencyRunTime] \<rparr>
                     else b1)
           in Inr (h[a := Bucket_obj b2])))"

text \<open>
  The methods \<^verbatim>\<open>open\<close> and \<^verbatim>\<open>close\<close>; \<open>open\<close> is a keyword of Isabelle, hence the prefix.
\<close>

definition Status_open :: "heap \<Rightarrow> Status \<Rightarrow> error + heap" where
  "Status_open h this =
     (case current h this of
        Inl e \<Rightarrow> Inl e
      | Inr (a, b) \<Rightarrow> Inr (h[a := Bucket_obj (b\<lparr> isCircuitBreakerOpen := Some True \<rparr>)]))"

definition Status_close :: "heap \<Rightarrow> Status \<Rightarrow> error + heap" where
  "Status_close h this =
     (case current h this of
        Inl e \<Rightarrow> Inl e
      | Inr (a, b) \<Rightarrow> Inr (h[a := Bucket_obj (b\<lparr> isCircuitBreakerOpen := Some False \<rparr>)]))"

subsection \<open>Runs of the instance\<close>

text \<open>
  What happens to an instance after its construction: calls of its three methods by the
  owning breaker, and firings of the rotation timer.  A call that throws ends the run.
\<close>

datatype action = Increment event "rat option" | Open | Close | Rotate

fun step :: "Status \<Rightarrow> heap \<Rightarrow> action \<Rightarrow> error + heap" where
  "step this h (Increment property latencyRunTime) = increment h this property latencyRunTime"
| "step this h Open = Status_open h this"
| "step this h Close = Status_close h this"
| "step this h Rotate = Inr (nextBucket (WINDOW this) h)"

fun run :: "Status \<Rightarrow> heap \<Rightarrow> action list \<Rightarrow> error + heap" where
  "run this h [] = Inr h"
| "run this h (a # as) = (case step this h a of Inl e \<Rightarrow> Inl e | Inr h1 \<Rightarrow> run this h1 as)"

text \<open>
  The breaker flags of a window of at least one bucket as a computation on the list of
  flags alone, current bucket first, for the comparison with the code in C9: \<^verbatim>\<open>open\<close> and
  \<^verbatim>\<open>close\<close> set the flag of the current bucket and no other, \<^verbatim>\<open>increment\<close> touches no
  flag, and a rotation drops the last flag and puts the flag of a fresh bucket, which has
  none, in front.
\<close>

fun flags_after :: "bool option list \<Rightarrow> action \<Rightarrow> bool option list" where
  "flags_after fs (Increment property latencyRunTime) = fs"
| "flags_after fs Open = Some True # tl fs"
| "flags_after fs Close = Some False # tl fs"
| "flags_after fs Rotate = None # butlast fs"

text \<open>\<open>k\<close> firings of the rotation timer in a row.\<close>

fun rotations :: "nat \<Rightarrow> ref \<Rightarrow> heap \<Rightarrow> heap" where
  "rotations 0 win h = h"
| "rotations (Suc k) win h = rotations k win (nextBucket win h)"

text \<open>The buckets of the window, in order, leaving out the slots that hold none.\<close>

definition buckets_of :: "heap \<Rightarrow> Status \<Rightarrow> Bucket list" where
  "buckets_of h this = List.map_filter (bucket_of h) (array_of h (WINDOW this))"

text \<open>The latency samples of all buckets of the window, bucket after bucket.\<close>

definition pooled :: "heap \<Rightarrow> Status \<Rightarrow> rat list" where
  "pooled h this = concat (map latencyTimes (buckets_of h this))"

text \<open>
  The shape of the store that the constructor establishes for \<open>n\<close> buckets: the window is
  an array of \<open>n\<close> slots, and the slots hold references to \<open>n\<close> different bucket objects.
\<close>

definition is_array :: "heap \<Rightarrow> ref \<Rightarrow> bool" where
  "is_array h a = (a < length h \<and> (case h ! a of Array_obj _ \<Rightarrow> True | Bucket_obj _ \<Rightarrow> False))"

definition primed :: "nat \<Rightarrow> heap \<Rightarrow> Status \<Rightarrow> bool" where
  "primed n h this =
     (is_array h (WINDOW this) \<and>
      length (array_of h (WINDOW this)) = n \<and>
      distinct (array_of h (WINDOW this)) \<and>
      list_all (\<lambda>slot. bucket_of h slot \<noteq> None) (array_of h (WINDOW this)))"

subsection \<open>A caller holding the result of \<^verbatim>\<open>window\<close>\<close>

text \<open>
  What a caller can do with the array that the accessor \<^verbatim>\<open>window\<close> returned.  Every
  mutation of the array itself (an assignment to an index, \<^verbatim>\<open>push\<close>, \<^verbatim>\<open>pop\<close>, a change of
  \<^verbatim>\<open>length\<close>) replaces the slots of that array object; this is \<open>array_store\<close>.  An
  assignment to a property of an element, such as \<^verbatim>\<open>copy[i].successes = v\<close>, writes to the
  object that slot \<open>i\<close> refers to, and throws when the slot holds \<^verbatim>\<open>undefined\<close>.
\<close>

definition caller_set_successes :: "heap \<Rightarrow> ref \<Rightarrow> int \<Rightarrow> nat \<Rightarrow> error + heap" where
  "caller_set_successes h copy i v =
     (case js_index (array_of h copy) i of
        Some (Some a) \<Rightarrow>
          (case bucket_of h (Some a) of
             None \<Rightarrow> Inl TypeError
           | Some b \<Rightarrow> Inr (h[a := Bucket_obj (b\<lparr> successes := v \<rparr>)]))
      | _ \<Rightarrow> Inl TypeError)"

section \<open>Properties of the rounding\<close>

lemma rne_near:
  assumes "\<bar>y - of_int k\<bar> < 1 / 2"
  shows "rne y = k"
proof -
  from assms have a1: "y - of_int k < 1 / 2" and a2: "- (1 / 2) < y - of_int k"
    by linarith+
  have ne: "y - of_int \<lfloor>y\<rfloor> \<noteq> 1 / 2"
  proof
    assume h: "y - of_int \<lfloor>y\<rfloor> = 1 / 2"
    from h a1 have "(of_int \<lfloor>y\<rfloor> :: rat) < of_int k" by linarith
    then have l: "\<lfloor>y\<rfloor> < k" by (simp only: of_int_less_iff)
    from h a2 have "(of_int (k - 1) :: rat) < of_int \<lfloor>y\<rfloor>" by simp
    then have "k - 1 < \<lfloor>y\<rfloor>" by (simp only: of_int_less_iff)
    with l show False by linarith
  qed
  have "\<lfloor>y + 1 / 2\<rfloor> = k"
  proof (rule floor_unique)
    show "of_int k \<le> y + 1 / 2" using a2 by linarith
    show "y + 1 / 2 < of_int k + 1" using a1 by linarith
  qed
  with ne show ?thesis by (simp add: rne_def)
qed

lemma rne_err: "\<bar>of_int (rne y) - y\<bar> \<le> 1 / 2"
proof (cases "y - of_int \<lfloor>y\<rfloor> = 1 / 2")
  case True
  then have "y = of_int \<lfloor>y\<rfloor> + 1 / 2" by simp
  then have "\<bar>of_int \<lfloor>y\<rfloor> - y\<bar> \<le> 1 / 2" and "\<bar>of_int (\<lfloor>y\<rfloor> + 1) - y\<bar> \<le> 1 / 2"
    by simp_all
  with True show ?thesis by (simp add: rne_def)
next
  case False
  have "of_int \<lfloor>y + 1 / 2\<rfloor> \<le> y + 1 / 2" by (rule of_int_floor_le)
  moreover have "y + 1 / 2 < of_int \<lfloor>y + 1 / 2\<rfloor> + 1" by linarith
  ultimately have "\<bar>of_int \<lfloor>y + 1 / 2\<rfloor> - y\<bar> \<le> 1 / 2" by linarith
  with False show ?thesis by (simp add: rne_def)
qed

lemma ilog2_bounds:
  assumes "0 < x"
  shows "2 powi ilog2 x \<le> x" and "x < 2 powi (ilog2 x + 1)"
proof -
  show "2 powi ilog2 x \<le> x"
  proof (cases "1 \<le> x")
    case True
    let ?m = "nat \<lfloor>x\<rfloor>"
    have m: "0 < ?m" using True by simp
    from floorlog_bounds[OF m, of 2] have b: "2 ^ (floorlog 2 ?m - 1) \<le> ?m" by simp
    have k: "0 < floorlog 2 ?m" using m floorlog_eq_zero_iff[of 2 ?m] by (cases "floorlog 2 ?m") simp_all
    have "(of_nat (2 ^ (floorlog 2 ?m - 1)) :: rat) \<le> of_nat ?m"
      using b by (simp only: of_nat_le_iff)
    then have "(2::rat) ^ (floorlog 2 ?m - 1) \<le> of_nat ?m"
      by simp
    also have "\<dots> \<le> x" using True by (simp add: of_nat_nat) 
    finally have "(2::rat) ^ (floorlog 2 ?m - 1) \<le> x" .
    moreover have "ilog2 x = int (floorlog 2 ?m - 1)" using True k by (simp add: ilog2_def)
    ultimately show ?thesis by simp
  next
    case False
    let ?m = "nat (\<lceil>1 / x\<rceil> - 1)"
    have y: "1 < 1 / x" using False assms by simp
    then have c: "2 \<le> \<lceil>1 / x\<rceil>" by (simp add: le_ceiling_iff) 
    then have m: "0 < ?m" by simp
    have "0 \<le> \<lceil>1 / x\<rceil> - 1" using c by linarith
    then have "int ?m = \<lceil>1 / x\<rceil> - 1" by (rule nat_0_le)
    then have "(of_int (int ?m) :: rat) = of_int (\<lceil>1 / x\<rceil> - 1)" by (simp only:)
    then have mi: "(of_nat ?m :: rat) = of_int \<lceil>1 / x\<rceil> - 1"
      by (simp only: of_int_of_nat_eq of_int_diff of_int_1)
    from floorlog_bounds[OF m, of 2] have b: "?m < 2 ^ floorlog 2 ?m" by simp
    then have "?m + 1 \<le> 2 ^ floorlog 2 ?m" by linarith
    then have "(of_nat (?m + 1) :: rat) \<le> of_nat (2 ^ floorlog 2 ?m)"
      by (simp only: of_nat_le_iff)
    then have "(of_nat (?m + 1) :: rat) \<le> 2 ^ floorlog 2 ?m"
      by simp
    moreover have "(of_nat (?m + 1) :: rat) = of_int \<lceil>1 / x\<rceil>" using mi by simp
    moreover have "1 / x \<le> of_int \<lceil>1 / x\<rceil>" by simp
    ultimately have "1 / x \<le> 2 ^ floorlog 2 ?m" by linarith
    then have "1 / 2 ^ floorlog 2 ?m \<le> x"
      using assms by (simp add: field_simps)
    moreover have "ilog2 x = - int (floorlog 2 ?m)" using False by (simp add: ilog2_def)
    ultimately show ?thesis by (simp add: power_int_minus field_simps)
  qed
  show "x < 2 powi (ilog2 x + 1)"
  proof (cases "1 \<le> x")
    case True
    let ?m = "nat \<lfloor>x\<rfloor>"
    have m: "0 < ?m" using True by simp
    from floorlog_bounds[OF m, of 2] have b: "?m < 2 ^ floorlog 2 ?m" by simp
    then have "?m + 1 \<le> 2 ^ floorlog 2 ?m" by linarith
    then have "(of_nat (?m + 1) :: rat) \<le> of_nat (2 ^ floorlog 2 ?m)"
      by (simp only: of_nat_le_iff)
    then have "(of_nat (?m + 1) :: rat) \<le> 2 ^ floorlog 2 ?m"
      by simp
    moreover have "(of_nat (?m + 1) :: rat) = of_int \<lfloor>x\<rfloor> + 1" using True by simp
    moreover have "x < of_int \<lfloor>x\<rfloor> + 1" by linarith
    ultimately have "x < 2 ^ floorlog 2 ?m" by linarith
    moreover have "ilog2 x + 1 = int (floorlog 2 ?m)" using True by (simp add: ilog2_def)
    ultimately show ?thesis by simp
  next
    case False
    let ?m = "nat (\<lceil>1 / x\<rceil> - 1)"
    have y: "1 < 1 / x" using False assms by simp
    then have c: "2 \<le> \<lceil>1 / x\<rceil>" by (simp add: le_ceiling_iff)
    then have m: "0 < ?m" by simp
    have "0 \<le> \<lceil>1 / x\<rceil> - 1" using c by linarith
    then have "int ?m = \<lceil>1 / x\<rceil> - 1" by (rule nat_0_le)
    then have "(of_int (int ?m) :: rat) = of_int (\<lceil>1 / x\<rceil> - 1)" by (simp only:)
    then have mi: "(of_nat ?m :: rat) = of_int \<lceil>1 / x\<rceil> - 1"
      by (simp only: of_int_of_nat_eq of_int_diff of_int_1)
    have k: "0 < floorlog 2 ?m" using m floorlog_eq_zero_iff[of 2 ?m] by (cases "floorlog 2 ?m") simp_all
    from floorlog_bounds[OF m, of 2] have b: "2 ^ (floorlog 2 ?m - 1) \<le> ?m" by simp
    have "(of_nat (2 ^ (floorlog 2 ?m - 1)) :: rat) \<le> of_nat ?m"
      using b by (simp only: of_nat_le_iff)
    then have "(2::rat) ^ (floorlog 2 ?m - 1) \<le> of_nat ?m"
      by simp
    also have "(of_nat ?m :: rat) = of_int \<lceil>1 / x\<rceil> - 1" by (rule mi)
    also have "\<dots> < 1 / x" by linarith
    finally have "(2::rat) ^ (floorlog 2 ?m - 1) < 1 / x" .
    then have "x < 1 / 2 ^ (floorlog 2 ?m - 1)"
      using assms by (simp add: field_simps)
    moreover have "ilog2 x + 1 = - int (floorlog 2 ?m - 1)" using False k by (simp add: ilog2_def)
    ultimately show ?thesis by (simp add: power_int_minus field_simps)
  qed
qed


lemma double_pos:
  assumes "0 < x" and "- 1022 \<le> ilog2 x"
  shows "double x = of_int (rne (x / 2 powi (ilog2 x - 52))) * 2 powi (ilog2 x - 52)"
  using assms by (simp add: double_def Let_def max_def)

lemma half_ulp: "(2::rat) powi (e - 52) / 2 = 2 powi (e - 53)"
proof -
  have "(2::rat) powi (e - 53 + 1) = 2 powi (e - 53) * 2" by (rule power_int_add_1) simp
  moreover have "e - 53 + 1 = e - 52" by simp
  ultimately show ?thesis by simp
qed

lemma double_snap:
  assumes "0 < x" and "- 1022 \<le> ilog2 x"
    and "\<bar>x - of_int k * 2 powi (ilog2 x - 52)\<bar> < 2 powi (ilog2 x - 53)"
  shows "double x = of_int k * 2 powi (ilog2 x - 52)"
proof -
  let ?u = "(2::rat) powi (ilog2 x - 52)"
  have u: "0 < ?u" by simp
  have "\<bar>x - of_int k * ?u\<bar> < ?u / 2" using assms(3) by (simp only: half_ulp)
  then have "\<bar>x - of_int k * ?u\<bar> / ?u < 1 / 2" using u by (simp add: field_simps)
  moreover have "\<bar>x - of_int k * ?u\<bar> / ?u = \<bar>x / ?u - of_int k\<bar>"
  proof -
    have "x / ?u - of_int k = (x - of_int k * ?u) / ?u" using u by (simp add: field_simps)
    then show ?thesis using u by (simp add: abs_divide)
  qed
  ultimately have "\<bar>x / ?u - of_int k\<bar> < 1 / 2" by simp
  then have "rne (x / ?u) = k" by (rule rne_near)
  then show ?thesis by (simp add: double_pos[OF assms(1,2)])
qed

lemma double_err:
  assumes "0 < x" and "- 1022 \<le> ilog2 x"
  shows "\<bar>double x - x\<bar> \<le> 2 powi (ilog2 x - 53)"
proof -
  let ?u = "(2::rat) powi (ilog2 x - 52)"
  have u: "0 < ?u" by simp
  have "\<bar>of_int (rne (x / ?u)) - x / ?u\<bar> \<le> 1 / 2" by (rule rne_err)
  then have "\<bar>of_int (rne (x / ?u)) - x / ?u\<bar> * ?u \<le> 1 / 2 * ?u"
    using u by (simp only: mult_le_cancel_right_pos)
  moreover have "\<bar>of_int (rne (x / ?u)) - x / ?u\<bar> * ?u = \<bar>of_int (rne (x / ?u)) * ?u - x\<bar>"
  proof -
    have "\<bar>of_int (rne (x / ?u)) - x / ?u\<bar> * ?u = \<bar>(of_int (rne (x / ?u)) - x / ?u) * ?u\<bar>"
      using u by (simp add: abs_mult)
    also have "(of_int (rne (x / ?u)) - x / ?u) * ?u = of_int (rne (x / ?u)) * ?u - x"
      using u by (simp add: field_simps)
    finally show ?thesis .
  qed
  moreover have "1 / 2 * ?u = 2 powi (ilog2 x - 53)" using half_ulp[of "ilog2 x"] by simp
  ultimately show ?thesis by (simp add: double_pos[OF assms])
qed

lemma ilog2_unique:
  assumes "0 < x" and "2 powi e \<le> x" and "x < 2 powi (e + 1)"
  shows "ilog2 x = e"
proof (rule antisym)
  show "ilog2 x \<le> e"
  proof (rule ccontr)
    assume "\<not> ilog2 x \<le> e"
    then have "e + 1 \<le> ilog2 x" by simp
    then have "(2::rat) powi (e + 1) \<le> 2 powi ilog2 x" by (rule power_int_increasing) simp
    with ilog2_bounds(1)[OF assms(1)] assms(3) show False by linarith
  qed
  show "e \<le> ilog2 x"
  proof (rule ccontr)
    assume "\<not> e \<le> ilog2 x"
    then have "ilog2 x + 1 \<le> e" by simp
    then have "(2::rat) powi (ilog2 x + 1) \<le> 2 powi e" by (rule power_int_increasing) simp
    with ilog2_bounds(2)[OF assms(1)] assms(2) show False by linarith
  qed
qed


lemma nearest_rank_double:
  fixes p pd :: rat and n :: nat
  assumes lo: "1 / 4 \<le> pd" and hi: "pd \<le> 1"
    and close: "\<bar>pd - p\<bar> * 2 ^ 54 < pd"
    and grid: "200 * p \<in> \<int>"
    and n: "0 < n" "n < 2 ^ 32"
  shows "\<lceil>double (pd * of_nat n)\<rceil> = \<lceil>p * of_nat n\<rceil>"
proof -
  let ?x = "pd * of_nat n"
  let ?t = "p * of_nat n"
  let ?e = "ilog2 ?x"
  have n1: "(1::rat) \<le> of_nat n" using n(1) by simp
  have n32: "(of_nat n :: rat) < 2 ^ 32"
  proof -
    have "(of_nat n :: rat) < of_nat (2 ^ 32)" using n(2) by (simp only: of_nat_less_iff)
    then show ?thesis by simp
  qed
  have pd0: "0 < pd" using lo by linarith
  have x0: "0 < ?x" using pd0 n(1) by simp
  have xlo: "1 / 4 \<le> ?x"
  proof -
    have "pd * 1 \<le> pd * of_nat n" using pd0 n1 by (intro mult_left_mono) linarith+
    with lo show ?thesis by linarith
  qed
  have xhi: "?x < 2 ^ 32"
  proof -
    have "pd * of_nat n \<le> 1 * of_nat n" using hi by (intro mult_right_mono) simp_all
    with n32 show ?thesis by simp
  qed
  note b = ilog2_bounds[OF x0]
  have e_hi: "?e \<le> 31"
  proof (rule ccontr)
    assume "\<not> ?e \<le> 31"
    then have "32 \<le> ?e" by simp
    then have "(2::rat) powi 32 \<le> 2 powi ?e" by (rule power_int_increasing) simp
    with b(1) xhi show False by simp
  qed
  have e_lo: "- 2 \<le> ?e"
  proof (rule ccontr)
    assume "\<not> - 2 \<le> ?e"
    then have "?e + 1 \<le> - 2" by simp
    then have "(2::rat) powi (?e + 1) \<le> 2 powi (- 2)" by (rule power_int_increasing) simp
    with b(2) xlo show False by (simp add: power_int_minus)
  qed
  have norm: "- 1022 \<le> ?e" using e_lo by simp
  have he: "(2::rat) powi (?e + 1) / 2 ^ 54 = 2 powi (?e - 53)"
  proof -
    have "(2::rat) powi (?e - 53 + 54) = 2 powi (?e - 53) * 2 powi 54"
      by (rule power_int_add) simp
    moreover have "?e - 53 + 54 = ?e + 1" by simp
    ultimately show ?thesis by simp
  qed
  have small: "(2::rat) powi (?e - 53) \<le> 1 / 2 ^ 22"
  proof -
    have "?e - 53 \<le> - 22" using e_hi by simp
    then have "(2::rat) powi (?e - 53) \<le> 2 powi (- 22)" by (rule power_int_increasing) simp
    then show ?thesis by (simp add: power_int_minus field_simps)
  qed
  have dist: "\<bar>?x - ?t\<bar> < 2 powi (?e - 53)"
  proof -
    have "\<bar>?x - ?t\<bar> = \<bar>pd - p\<bar> * of_nat n"
      by (simp add: abs_mult flip: left_diff_distrib)
    also have "\<dots> * 2 ^ 54 = (\<bar>pd - p\<bar> * 2 ^ 54) * of_nat n" by simp
    finally have "\<bar>?x - ?t\<bar> * 2 ^ 54 = (\<bar>pd - p\<bar> * 2 ^ 54) * of_nat n" .
    also have "\<dots> < pd * of_nat n" using close n(1) by (intro mult_strict_right_mono) simp_all
    also have "\<dots> < 2 powi (?e + 1)" by (rule b(2))
    finally have "\<bar>?x - ?t\<bar> < 2 powi (?e + 1) / 2 ^ 54" by (simp add: field_simps)
    then show ?thesis by (simp only: he)
  qed
  show ?thesis
  proof (cases "?t \<in> \<int>")
    case True
    then obtain m :: int where m: "?t = of_int m" by (auto elim: Ints_cases)
    let ?k = "m * 2 ^ nat (52 - ?e)"
    have "(2::rat) powi (52 - ?e + (?e - 52)) = 2 powi (52 - ?e) * 2 powi (?e - 52)"
      by (rule power_int_add) simp
    then have one: "(2::rat) powi (52 - ?e) * 2 powi (?e - 52) = 1" by simp
    have "(2::rat) powi (52 - ?e) = 2 ^ nat (52 - ?e)"
      using e_hi by (simp add: power_int_def)
    then have "(of_int ?k :: rat) * 2 powi (?e - 52) = of_int m * (2 powi (52 - ?e) * 2 powi (?e - 52))"
      by simp
    then have k: "(of_int ?k :: rat) * 2 powi (?e - 52) = ?t" by (simp only: one m mult_1_right)
    have "\<bar>?x - of_int ?k * 2 powi (?e - 52)\<bar> < 2 powi (?e - 53)"
      using dist by (simp only: k)
    then have "double ?x = of_int ?k * 2 powi (?e - 52)"
      by (rule double_snap[OF x0 norm])
    then show ?thesis by (simp only: k)
  next
    case False
    from grid obtain g :: int where g: "200 * p = of_int g" by (auto elim: Ints_cases)
    let ?j = "g * int n"
    have j: "200 * ?t = of_int ?j"
    proof -
      have "200 * ?t = (200 * p) * of_nat n" by simp
      also have "\<dots> = of_int ?j" by (simp only: g) simp
      finally show ?thesis .
    qed
    let ?k = "\<lfloor>?t\<rfloor>"
    have k1: "of_int ?k < ?t" using False by (metis Ints_of_int floor_correct order_le_less)
    have k2: "?t < of_int ?k + 1" by linarith
    have "(200::rat) * of_int ?k < of_int ?j" using k1 j by linarith
    then have "(of_int (200 * ?k) :: rat) < of_int ?j" by simp
    then have "200 * ?k < ?j" by (simp only: of_int_less_iff)
    then have "200 * ?k + 1 \<le> ?j" by linarith
    then have "(of_int (200 * ?k + 1) :: rat) \<le> of_int ?j" by (simp only: of_int_le_iff)
    then have "(200::rat) * of_int ?k + 1 \<le> of_int ?j" by simp
    then have lo': "of_int ?k + 1 / 200 \<le> ?t" using j by linarith
    have "(of_int ?j :: rat) < 200 * of_int ?k + 200" using k2 j by linarith
    then have "(of_int ?j :: rat) < of_int (200 * ?k + 200)" by simp
    then have "?j < 200 * ?k + 200" by (simp only: of_int_less_iff)
    then have "?j \<le> 200 * ?k + 199" by linarith
    then have "(of_int ?j :: rat) \<le> of_int (200 * ?k + 199)" by (simp only: of_int_le_iff)
    then have "(of_int ?j :: rat) \<le> 200 * of_int ?k + 199" by simp
    then have hi': "?t \<le> of_int ?k + 199 / 200" using j by linarith
    have err: "\<bar>double ?x - ?x\<bar> \<le> 1 / 2 ^ 22"
      using double_err[OF x0 norm] small by linarith
    have err2: "\<bar>?x - ?t\<bar> < 1 / 2 ^ 22" using dist small by linarith
    have tiny: "(1::rat) / 2 ^ 22 + 1 / 2 ^ 22 < 1 / 200" by simp
    have "of_int ?k < double ?x" using lo' err err2 tiny by linarith
    moreover have "double ?x \<le> of_int ?k + 1" using hi' err err2 tiny by linarith
    ultimately have "\<lceil>double ?x\<rceil> = ?k + 1" by (intro ceiling_unique) simp_all
    moreover have "\<lceil>?t\<rceil> = ?k + 1" using k1 k2 by (intro ceiling_unique) simp_all
    ultimately show ?thesis by simp
  qed
qed


lemma double_eval:
  assumes "0 < x" and "2 powi e \<le> x" and "x < 2 powi (e + 1)" and "- 1022 \<le> e"
    and "\<bar>x - of_int k * 2 powi (e - 52)\<bar> < 2 powi (e - 53)"
  shows "double x = of_int k * 2 powi (e - 52)"
proof -
  have e: "ilog2 x = e" using assms(1-3) by (rule ilog2_unique)
  show ?thesis using double_snap[of x k] assms(1,4,5) unfolding e by simp
qed

lemma double_0: "double 0 = 0"
  by (simp add: double_def)

lemma double_quarter: "double (1 / 4) = 1 / 4"
  using double_eval[of "1 / 4" "- 2" 4503599627370496] by (simp add: power_int_minus)

lemma double_half: "double (1 / 2) = 1 / 2"
  using double_eval[of "1 / 2" "- 1" 4503599627370496] by (simp add: power_int_minus)

lemma double_three_quarters: "double (3 / 4) = 3 / 4"
  using double_eval[of "3 / 4" "- 1" 6755399441055744] by (simp add: power_int_minus)

lemma double_1: "double 1 = 1"
  using double_eval[of 1 0 4503599627370496] by (simp add: power_int_minus)

lemma double_0_9: "double (9 / 10) = 8106479329266893 / 9007199254740992"
  using double_eval[of "9 / 10" "- 1" 8106479329266893] by (simp add: power_int_minus)

lemma double_0_95: "double (19 / 20) = 4278419646001971 / 4503599627370496"
  using double_eval[of "19 / 20" "- 1" 8556839292003942] by (simp add: power_int_minus)

lemma double_0_99: "double (99 / 100) = 4458563631096791 / 4503599627370496"
  using double_eval[of "99 / 100" "- 1" 8917127262193582] by (simp add: power_int_minus)

lemma double_0_995: "double (199 / 200) = 8962163258467287 / 9007199254740992"
  using double_eval[of "199 / 200" "- 1" 8962163258467287] by (simp add: power_int_minus)

lemma double_0_07: "double (7 / 100) = 1261007895663739 / 18014398509481984"
  using double_eval[of "7 / 100" "- 4" 5044031582654956] by (simp add: power_int_minus)

lemma double_0_07_times_100:
  "double (31525197391593475 / 4503599627370496) = 7881299347898369 / 1125899906842624"
  using double_eval[of "31525197391593475 / 4503599627370496" 2 7881299347898369]
  by (simp add: power_int_minus)

lemma rne_le_int:
  assumes "y \<le> of_int j"
  shows "rne y \<le> j"
proof -
  have c: "\<lceil>y\<rceil> \<le> j" using assms by (simp add: ceiling_le_iff)
  have "rne y \<le> \<lceil>y\<rceil>"
  proof (cases "y - of_int \<lfloor>y\<rfloor> = 1 / 2")
    case True
    then have "of_int \<lfloor>y\<rfloor> < y" by linarith
    then have "\<lfloor>y\<rfloor> + 1 \<le> \<lceil>y\<rceil>" by linarith
    with True show ?thesis by (simp add: rne_def)
  next
    case False
    have "\<lfloor>y + 1 / 2\<rfloor> \<le> \<lceil>y\<rceil>" by linarith
    with False show ?thesis by (simp add: rne_def)
  qed
  with c show ?thesis by linarith
qed

lemma rne_pos:
  assumes "1 / 2 < y"
  shows "1 \<le> rne y"
proof (cases "y - of_int \<lfloor>y\<rfloor> = 1 / 2")
  case True
  have "0 \<le> \<lfloor>y\<rfloor>" using assms by (simp add: le_floor_iff)
  moreover have "\<lfloor>y\<rfloor> \<noteq> 0" if "even \<lfloor>y\<rfloor>"
  proof
    assume "\<lfloor>y\<rfloor> = 0"
    with True assms show False by simp
  qed
  ultimately show ?thesis using True by (auto simp: rne_def)
next
  case False
  have "1 \<le> \<lfloor>y + 1 / 2\<rfloor>" using assms by (simp add: le_floor_iff)
  with False show ?thesis by (simp add: rne_def)
qed


lemma double_unfold:
  assumes "0 < x"
  shows "double x =
    of_int (rne (x / 2 powi (max (ilog2 x) (- 1022) - 52))) * 2 powi (max (ilog2 x) (- 1022) - 52)"
  using assms by (simp add: double_def Let_def)

lemma double_fixed_ge_least:
  assumes "double p = p" and "0 < p"
  shows "2 powi (- 1074) \<le> p"
proof -
  let ?u = "(2::rat) powi (max (ilog2 p) (- 1022) - 52)"
  have u: "0 < ?u" by simp
  have eq: "p = of_int (rne (p / ?u)) * ?u"
    using double_unfold[OF assms(2)] assms(1) by simp
  have "0 < (of_int (rne (p / ?u)) :: rat)"
  proof (rule ccontr)
    assume "\<not> 0 < (of_int (rne (p / ?u)) :: rat)"
    then have "(of_int (rne (p / ?u)) :: rat) * ?u \<le> 0"
      using u by (simp add: mult_le_0_iff)
    with eq assms(2) show False by simp
  qed
  then have "1 \<le> rne (p / ?u)" by simp
  then have "(1::rat) \<le> of_int (rne (p / ?u))" by (simp only: of_int_1_le_iff)
  then have "1 * ?u \<le> of_int (rne (p / ?u)) * ?u" using u by (simp only: mult_le_cancel_right_pos)
  with eq have "?u \<le> p" by simp
  moreover have "(2::rat) powi (- 1074) \<le> ?u" by (rule power_int_increasing) simp_all
  ultimately show ?thesis by linarith
qed

lemma double_product_index:
  fixes p :: rat and n :: nat
  assumes dp: "double p = p" and p: "0 < p" "p \<le> 1" and n: "0 < n" "n < 2 ^ 32"
  shows "0 < \<lceil>double (p * of_nat n)\<rceil>" and "\<lceil>double (p * of_nat n)\<rceil> \<le> int n"
proof -
  let ?x = "p * of_nat n"
  let ?e = "max (ilog2 ?x) (- 1022)"
  let ?u = "(2::rat) powi (?e - 52)"
  have u: "0 < ?u" by simp
  have n1: "(1::rat) \<le> of_nat n" using n(1) by simp
  have n32: "(of_nat n :: rat) < 2 ^ 32"
  proof -
    have "(of_nat n :: rat) < of_nat (2 ^ 32)" using n(2) by (simp only: of_nat_less_iff)
    then show ?thesis by simp
  qed
  have x0: "0 < ?x" using p(1) n(1) by simp
  have xp: "p \<le> ?x"
  proof -
    have "p * 1 \<le> p * of_nat n" using p(1) n1 by (intro mult_left_mono) linarith+
    then show ?thesis by simp
  qed
  have xn: "?x \<le> of_nat n"
  proof -
    have "p * of_nat n \<le> 1 * of_nat n" using p(2) by (intro mult_right_mono) simp_all
    then show ?thesis by simp
  qed
  note b = ilog2_bounds[OF x0]
  have e_hi: "?e \<le> 31"
  proof (rule ccontr)
    assume "\<not> ?e \<le> 31"
    then have "32 \<le> ilog2 ?x" by simp
    then have "(2::rat) powi 32 \<le> 2 powi ilog2 ?x" by (rule power_int_increasing) simp
    with b(1) xn n32 show False by simp
  qed
  note d = double_unfold[OF x0]
  show "\<lceil>double ?x\<rceil> \<le> int n"
  proof -
    let ?j = "int n * 2 ^ nat (52 - ?e)"
    have "(2::rat) powi (52 - ?e + (?e - 52)) = 2 powi (52 - ?e) * ?u"
      by (rule power_int_add) simp
    then have one: "(2::rat) powi (52 - ?e) * ?u = 1" by simp
    have pw: "(2::rat) powi (52 - ?e) = 2 ^ nat (52 - ?e)"
      using e_hi by (simp add: power_int_def)
    have j: "(of_int ?j :: rat) * ?u = of_nat n"
    proof -
      have "(of_int ?j :: rat) * ?u = of_nat n * (2 powi (52 - ?e) * ?u)"
        by (simp add: pw)
      then show ?thesis by (simp only: one mult_1_right)
    qed
    have "?x / ?u \<le> of_int ?j"
    proof -
      have "?x \<le> of_int ?j * ?u" using xn by (simp only: j)
      then show ?thesis using u by (simp add: field_simps)
    qed
    then have "rne (?x / ?u) \<le> ?j" by (rule rne_le_int)
    then have "(of_int (rne (?x / ?u)) :: rat) \<le> of_int ?j" by (simp only: of_int_le_iff)
    then have "of_int (rne (?x / ?u)) * ?u \<le> of_int ?j * ?u"
      using u by (simp only: mult_le_cancel_right_pos)
    then have "double ?x \<le> of_int (int n)" by (simp only: d j of_int_of_nat_eq)
    then show ?thesis by (simp only: ceiling_le_iff)
  qed
  show "0 < \<lceil>double ?x\<rceil>"
  proof -
    have "1 / 2 < ?x / ?u"
    proof (cases "- 1022 \<le> ilog2 ?x")
      case True
      then have e: "?e = ilog2 ?x" by simp
      have "(2::rat) powi (ilog2 ?x - 52 + 52) = 2 powi (ilog2 ?x - 52) * 2 powi 52"
        by (rule power_int_add) simp
      then have "(2::rat) powi ilog2 ?x = 2 powi (ilog2 ?x - 52) * 2 ^ 52" by simp
      with b(1) have "2 powi (ilog2 ?x - 52) * 2 ^ 52 \<le> ?x" by simp
      then have "(2::rat) ^ 52 \<le> ?x / 2 powi (ilog2 ?x - 52)"
        by (simp add: field_simps)
      moreover have "(1 / 2 :: rat) < 2 ^ 52" by simp
      ultimately have "1 / 2 < ?x / 2 powi (ilog2 ?x - 52)" by linarith
      then show ?thesis by (simp only: e)
    next
      case False
      then have e: "?e = - 1022" by simp
      have "2 powi (- 1074) \<le> ?x" using double_fixed_ge_least[OF dp p(1)] xp by linarith
      then have "1 \<le> ?x / 2 powi (- 1074)" by (simp add: field_simps)
      then have "1 / 2 < ?x / 2 powi (- 1022 - 52)" by simp
      then show ?thesis by (simp only: e)
    qed
    then have "1 \<le> rne (?x / ?u)" by (rule rne_pos)
    then have "(1::rat) \<le> of_int (rne (?x / ?u))" by (simp only: of_int_1_le_iff)
    then have "1 * ?u \<le> of_int (rne (?x / ?u)) * ?u"
      using u by (simp only: mult_le_cancel_right_pos)
    then have "?u \<le> double ?x" by (simp only: d mult_1)
    then have "0 < double ?x" using u by linarith
    then show ?thesis by (simp add: less_ceiling_iff)
  qed
qed


section \<open>Properties of the store\<close>

lemma array_of_store_other: "a' \<noteq> a \<Longrightarrow> array_of (array_store h a w) a' = array_of h a'"
  by (simp add: array_of_def array_store_def)

lemma bucket_of_store: "is_array h a \<Longrightarrow> bucket_of (array_store h a w) slot = bucket_of h slot"
  by (cases slot) (auto simp: bucket_of_def array_store_def is_array_def nth_list_update split: obj.splits)

lemma array_of_append: "a < length h \<Longrightarrow> array_of (h @ [v]) a = array_of h a"
  by (simp add: array_of_def nth_append)

lemma bucket_of_Some_less: "bucket_of h (Some a) = Some b \<Longrightarrow> a < length h"
  by (simp add: bucket_of_def split: if_splits)

lemma nextBucket_eq:
  "is_array h w \<Longrightarrow>
   nextBucket w h = (h @ [Bucket_obj bucket])[w := Array_obj (Some (length h) # butlast (array_of h w))]"
  by (simp add: nextBucket_def array_pop_def array_unshift_def alloc_def array_store_def
      is_array_def array_of_def nth_append Let_def list_update_append)

lemma nextBucket_length: "length (nextBucket w h) = Suc (length h)"
  by (simp add: nextBucket_def array_pop_def array_unshift_def alloc_def array_store_def Let_def)

lemma nextBucket_is_array: "is_array h w \<Longrightarrow> is_array (nextBucket w h) w"
  by (simp add: nextBucket_eq) (simp add: is_array_def)

lemma nextBucket_array:
  "is_array h w \<Longrightarrow> array_of (nextBucket w h) w = Some (length h) # butlast (array_of h w)"
  by (simp add: nextBucket_eq) (simp add: is_array_def array_of_def)

lemma nextBucket_bucket_old:
  "is_array h w \<Longrightarrow> a < length h \<Longrightarrow> bucket_of (nextBucket w h) (Some a) = bucket_of h (Some a)"
  by (simp add: nextBucket_eq)
     (auto simp: is_array_def bucket_of_def nth_append nth_list_update split: obj.splits)

lemma nextBucket_bucket_new:
  "is_array h w \<Longrightarrow> bucket_of (nextBucket w h) (Some (length h)) = Some bucket"
  by (simp add: nextBucket_eq)
     (auto simp: is_array_def bucket_of_def nth_append nth_list_update split: obj.splits)

lemma prime_explicit:
  "i \<le> N \<Longrightarrow> length h = L \<Longrightarrow>
   prime i (int N) L
     (h @ [Array_obj (map (\<lambda>j. Some (L + 1 + j)) [0..<i] @ replicate (N - i) None)]
        @ replicate i (Bucket_obj bucket)) =
   h @ [Array_obj (map (\<lambda>j. Some (L + 1 + j)) [0..<N])] @ replicate N (Bucket_obj bucket)"
proof (induction "N - i" arbitrary: i)
  case 0
  then have "i = N" by simp
  then show ?case by (subst prime.simps) simp
next
  case (Suc d)
  then have lt: "i < N" and d: "d = N - Suc i" by simp_all
  let ?arr = "map (\<lambda>j. Some (L + 1 + j)) [0..<i] @ replicate (N - i) None"
  let ?h0 = "h @ [Array_obj ?arr] @ replicate i (Bucket_obj bucket)"
  have len: "length ?h0 = L + 1 + i" using Suc.prems by simp
  have arr: "array_of (?h0 @ [Bucket_obj bucket]) L = ?arr"
    using Suc.prems by (simp add: array_of_def nth_append)
  have upd: "js_set ?arr i (Some (L + 1 + i)) =
      map (\<lambda>j. Some (L + 1 + j)) [0..<Suc i] @ replicate (N - Suc i) None"
  proof -
    from lt obtain m where m: "N - i = Suc m" "N - Suc i = m"
      by (cases "N - i") auto
    show ?thesis by (simp add: js_set_def list_update_append m)
  qed
  have st: "array_store (?h0 @ [Bucket_obj bucket]) L (js_set ?arr i (Some (L + 1 + i))) =
      h @ [Array_obj (map (\<lambda>j. Some (L + 1 + j)) [0..<Suc i] @ replicate (N - Suc i) None)]
        @ replicate (Suc i) (Bucket_obj bucket)"
    using Suc.prems unfolding upd
    by (simp add: array_store_def list_update_append replicate_append_same)
  have al: "alloc ?h0 (Bucket_obj bucket) = (L + 1 + i, ?h0 @ [Bucket_obj bucket])"
    unfolding alloc_def len ..
  have "prime i (int N) L ?h0 =
      (let (b, h1) = alloc ?h0 (Bucket_obj bucket)
       in prime (Suc i) (int N) L (array_store h1 L (js_set (array_of h1 L) i (Some b))))"
    using lt by (subst prime.simps) (simp only: of_nat_less_iff if_True)
  also have "\<dots> = prime (Suc i) (int N) L
        (array_store (?h0 @ [Bucket_obj bucket]) L (js_set ?arr i (Some (L + 1 + i))))"
    by (simp only: al Let_def prod.case arr)
  also have "\<dots> = h @ [Array_obj (map (\<lambda>j. Some (L + 1 + j)) [0..<N])] @ replicate N (Bucket_obj bucket)"
    unfolding st using Suc.hyps(1)[of "Suc i"] d lt Suc.prems by simp
  finally show ?case .
qed

lemma constructor_eq:
  assumes "0 \<le> rollingCountBuckets opts" "rollingCountBuckets opts < 2 ^ 32"
  shows "constructor h opts =
     Inr (h @ [Array_obj (map (\<lambda>j. Some (length h + 1 + j)) [0..<nat (rollingCountBuckets opts)])]
            @ replicate (nat (rollingCountBuckets opts)) (Bucket_obj bucket),
          \<lparr> WINDOW = length h,
            BUCKETS = rollingCountBuckets opts,
            TIMEOUT = rollingCountTimeout opts,
            PERCENTILES = [0, 1/4, 1/2, 3/4, 9/10, 19/20, 99/100, 199/200, 1],
            percentilesEnabled = rollingPercentilesEnabled opts \<rparr>)"
proof -
  have "prime 0 (int (nat (rollingCountBuckets opts))) (length h)
      (h @ [Array_obj (map (\<lambda>j. Some (length h + 1 + j)) [0..<0]
             @ replicate (nat (rollingCountBuckets opts) - 0) None)]
         @ replicate 0 (Bucket_obj bucket)) =
    h @ [Array_obj (map (\<lambda>j. Some (length h + 1 + j)) [0..<nat (rollingCountBuckets opts)])]
      @ replicate (nat (rollingCountBuckets opts)) (Bucket_obj bucket)"
    by (rule prime_explicit) simp_all
  then show ?thesis
    using assms by (simp add: constructor_def new_Array_def alloc_def Let_def)
qed

lemma constructor_fails:
  "rollingCountBuckets opts < 0 \<or> 2 ^ 32 \<le> rollingCountBuckets opts \<Longrightarrow>
   constructor h opts = Inl RangeError"
  by (simp add: constructor_def new_Array_def)


section \<open>The shape of the window\<close>

lemma map_filter_all_Some:
  "list_all (\<lambda>x. f x \<noteq> None) xs \<Longrightarrow> List.map_filter f xs = map (\<lambda>x. the (f x)) xs"
  by (induction xs) (auto split: option.splits)

lemma map_filter_cong_set:
  "(\<And>x. x \<in> set xs \<Longrightarrow> f x = g x) \<Longrightarrow> List.map_filter f xs = List.map_filter g xs"
  by (induction xs) (auto split: option.splits)

lemma primed_buckets_of:
  "primed n h this \<Longrightarrow>
   buckets_of h this = map (\<lambda>slot. the (bucket_of h slot)) (array_of h (WINDOW this))"
  by (simp add: primed_def buckets_of_def map_filter_all_Some)

lemma primed_length_buckets_of: "primed n h this \<Longrightarrow> length (buckets_of h this) = n"
  by (simp add: primed_buckets_of) (simp add: primed_def)

lemma constructor_primed:
  assumes "0 \<le> rollingCountBuckets opts" "rollingCountBuckets opts < 2 ^ 32"
    and "constructor h opts = Inr (h0, this)"
  shows "primed (nat (rollingCountBuckets opts)) h0 this"
    and "buckets_of h0 this = replicate (nat (rollingCountBuckets opts)) bucket"
    and "array_of h0 (WINDOW this) =
           map (\<lambda>j. Some (length h + 1 + j)) [0..<nat (rollingCountBuckets opts)]"
proof -
  let ?N = "nat (rollingCountBuckets opts)"
  let ?w = "map (\<lambda>j. Some (length h + 1 + j)) [0..<?N]"
  have h0: "h0 = h @ [Array_obj ?w] @ replicate ?N (Bucket_obj bucket)"
    and w: "WINDOW this = length h"
    using assms by (auto simp: constructor_eq)
  show arr: "array_of h0 (WINDOW this) = ?w"
    by (simp add: h0 w array_of_def)
  have bk: "bucket_of h0 slot = Some bucket" if "slot \<in> set ?w" for slot
    using that by (auto simp: h0 bucket_of_def nth_append)
  have "distinct ?w" by (simp add: distinct_map inj_on_def)
  moreover have "is_array h0 (WINDOW this)" by (simp add: h0 w is_array_def)
  ultimately show "primed ?N h0 this"
    using bk unfolding primed_def arr by (simp add: list_all_iff)
  show "buckets_of h0 this = replicate ?N bucket"
    unfolding buckets_of_def arr
    by (rule replicate_eqI) (auto simp: map_filter_def bk)
qed

lemma primed_current:
  assumes "primed n h this" "0 < n"
  shows "\<exists>a b. current h this = Inr (a, b) \<and> array_of h (WINDOW this) \<noteq> [] \<and>
     hd (array_of h (WINDOW this)) = Some a \<and> bucket_of h (Some a) = Some b"
proof -
  from assms obtain slot rest where w: "array_of h (WINDOW this) = slot # rest"
    by (cases "array_of h (WINDOW this)") (auto simp: primed_def)
  with assms obtain b where "bucket_of h slot = Some b" by (auto simp: primed_def)
  moreover then obtain a where "slot = Some a" by (cases slot) (auto simp: bucket_of_def)
  ultimately show ?thesis by (simp add: current_def w js_index_def)
qed

lemma current_Inr:
  "current h this = Inr (a, b) \<Longrightarrow>
   array_of h (WINDOW this) \<noteq> [] \<and> hd (array_of h (WINDOW this)) = Some a \<and>
   bucket_of h (Some a) = Some b"
  by (cases "array_of h (WINDOW this)")
     (auto simp: current_def js_index_def split: option.splits if_splits)

lemma bucket_write_array:
  "bucket_of h (Some a) = Some b \<Longrightarrow> array_of (h[a := Bucket_obj b']) a' = array_of h a'"
  by (auto simp: array_of_def bucket_of_def nth_list_update split: if_splits obj.splits)

lemma bucket_write_is_array:
  "bucket_of h (Some a) = Some b \<Longrightarrow> is_array (h[a := Bucket_obj b']) a' = is_array h a'"
  by (auto simp: is_array_def bucket_of_def nth_list_update split: if_splits obj.splits)

lemma bucket_write_bucket:
  "bucket_of h (Some a) = Some b \<Longrightarrow>
   bucket_of (h[a := Bucket_obj b']) slot = (if slot = Some a then Some b' else bucket_of h slot)"
  by (cases slot) (auto simp: bucket_of_def nth_list_update split: if_splits obj.splits)

lemma bucket_write_current:
  assumes "current h this = Inr (a, b)"
  shows "current (h[a := Bucket_obj b']) this = Inr (a, b')"
proof -
  from current_Inr[OF assms] obtain rest where
    w: "array_of h (WINDOW this) = Some a # rest" and b: "bucket_of h (Some a) = Some b"
    by (cases "array_of h (WINDOW this)") auto
  show ?thesis
    by (simp add: current_def bucket_write_array[OF b] w js_index_def bucket_write_bucket[OF b])
qed

lemma bucket_write_primed:
  assumes "primed n h this" "current h this = Inr (a, b)"
  shows "primed n (h[a := Bucket_obj b']) this"
    and "buckets_of (h[a := Bucket_obj b']) this = b' # tl (buckets_of h this)"
proof -
  from current_Inr[OF assms(2)] obtain rest where
    w: "array_of h (WINDOW this) = Some a # rest" and b: "bucket_of h (Some a) = Some b"
    by (cases "array_of h (WINDOW this)") auto
  show "primed n (h[a := Bucket_obj b']) this"
    using assms(1)
    by (auto simp: primed_def bucket_write_array[OF b] bucket_write_is_array[OF b]
        bucket_write_bucket[OF b] list_all_iff)
  from assms(1) have "Some a \<notin> set rest" by (simp add: primed_def w)
  then have "List.map_filter (bucket_of (h[a := Bucket_obj b'])) rest =
      List.map_filter (bucket_of h) rest"
    by (intro map_filter_cong_set) (auto simp: bucket_write_bucket[OF b])
  then show "buckets_of (h[a := Bucket_obj b']) this = b' # tl (buckets_of h this)"
    by (simp add: buckets_of_def bucket_write_array[OF b] w bucket_write_bucket[OF b] b)
qed

lemma nextBucket_primed:
  assumes "primed n h this" "0 < n"
  shows "primed n (nextBucket (WINDOW this) h) this"
    and "buckets_of (nextBucket (WINDOW this) h) this = bucket # butlast (buckets_of h this)"
    and "array_of (nextBucket (WINDOW this) h) (WINDOW this) =
           Some (length h) # butlast (array_of h (WINDOW this))"
proof -
  let ?w = "array_of h (WINDOW this)"
  let ?h = "nextBucket (WINDOW this) h"
  from assms(1) have arr: "is_array h (WINDOW this)" by (simp add: primed_def)
  show w': "array_of ?h (WINDOW this) = Some (length h) # butlast ?w"
    by (rule nextBucket_array[OF arr])
  have old: "bucket_of ?h slot = bucket_of h slot" if "slot \<in> set ?w" for slot
  proof -
    from that assms(1) obtain b where b: "bucket_of h slot = Some b"
      by (auto simp: primed_def list_all_iff)
    then obtain a where a: "slot = Some a" by (cases slot) (auto simp: bucket_of_def)
    with b have "a < length h" by (auto dest: bucket_of_Some_less)
    then show ?thesis unfolding a by (rule nextBucket_bucket_old[OF arr])
  qed
  have fresh: "Some (length h) \<notin> set ?w"
  proof
    assume "Some (length h) \<in> set ?w"
    with assms(1) obtain b where "bucket_of h (Some (length h)) = Some b"
      by (auto simp: primed_def list_all_iff)
    then show False by (auto dest: bucket_of_Some_less)
  qed
  have len: "length ?w = n" and dist: "distinct ?w"
    and all: "\<forall>slot \<in> set ?w. bucket_of h slot \<noteq> None"
    using assms(1) by (simp_all add: primed_def list_all_iff)
  have ne: "?w \<noteq> []" using len assms(2) by auto
  have sub: "set (butlast ?w) \<subseteq> set ?w" by (auto dest: in_set_butlastD)
  show "primed n ?h this"
    unfolding primed_def w' list_all_iff
    using nextBucket_is_array[OF arr] len ne dist fresh sub all old
      nextBucket_bucket_new[OF arr]
    by (auto simp: distinct_butlast dest: in_set_butlastD)
  have "List.map_filter (bucket_of ?h) (butlast ?w) = List.map_filter (bucket_of h) (butlast ?w)"
    by (intro map_filter_cong_set old) (auto dest: in_set_butlastD)
  also have "\<dots> = butlast (List.map_filter (bucket_of h) ?w)"
    using all by (simp add: map_filter_all_Some list_all_iff map_butlast in_set_butlastD)
  finally show "buckets_of ?h this = bucket # butlast (buckets_of h this)"
    by (simp add: buckets_of_def w' nextBucket_bucket_new[OF arr])
qed


lemma step_primed:
  assumes "primed n h this" "0 < n"
  shows "\<exists>h1. step this h a = Inr h1 \<and> primed n h1 this"
proof -
  from primed_current[OF assms] obtain r b where c: "current h this = Inr (r, b)" by blast
  show ?thesis
  proof (cases a)
    case (Increment property latencyRunTime)
    then show ?thesis
      using bucket_write_primed(1)[OF assms(1) c] by (simp add: increment_def c Let_def)
  next
    case Open
    then show ?thesis
      using bucket_write_primed(1)[OF assms(1) c] by (simp add: Status_open_def c)
  next
    case Close
    then show ?thesis
      using bucket_write_primed(1)[OF assms(1) c] by (simp add: Status_close_def c)
  next
    case Rotate
    then show ?thesis using nextBucket_primed(1)[OF assms] by simp
  qed
qed

lemma run_primed:
  assumes "primed n h this" "0 < n"
  shows "\<exists>h1. run this h as = Inr h1 \<and> primed n h1 this"
  using assms(1)
proof (induction as arbitrary: h)
  case Nil
  then show ?case by simp
next
  case (Cons a as)
  from step_primed[OF Cons.prems assms(2)] obtain h1 where
    "step this h a = Inr h1" "primed n h1 this" by blast
  with Cons.IH[of h1] show ?case by simp
qed

lemma rotate_as_take:
  "length w = n \<Longrightarrow> 0 < n \<Longrightarrow> x # butlast w = take n (x # w)"
  by (cases n) (simp_all add: butlast_conv_take)

lemma rotations_window:
  assumes "0 < n"
  shows "primed n h this \<Longrightarrow>
     primed n (rotations k (WINDOW this) h) this \<and>
     length (rotations k (WINDOW this) h) = length h + k \<and>
     array_of (rotations k (WINDOW this) h) (WINDOW this) =
       take n (map Some (rev [length h..<length h + k]) @ array_of h (WINDOW this))"
proof (induction k arbitrary: h)
  case 0
  then show ?case by (simp add: primed_def)
next
  case (Suc k)
  let ?w = "WINDOW this"
  let ?h = "nextBucket ?w h"
  let ?news = "map Some (rev [Suc (length h)..<Suc (length h) + k])"
  have len: "length (array_of h ?w) = n" using Suc.prems by (simp add: primed_def)
  have p: "primed n ?h this" using Suc.prems assms by (rule nextBucket_primed(1))
  have w: "array_of ?h ?w = take n (Some (length h) # array_of h ?w)"
    using nextBucket_primed(3)[OF Suc.prems assms] rotate_as_take[OF len assms] by simp
  have "take n (?news @ take n (Some (length h) # array_of h ?w)) =
        take n (?news @ Some (length h) # array_of h ?w)"
    by (simp add: take_Suc_conv_app_nth min_def)
  moreover have "map Some (rev [length h..<length h + Suc k]) = ?news @ [Some (length h)]"
    by (simp add: upt_conv_Cons del: upt_Suc)
  ultimately show ?case
    using Suc.IH[OF p] by (simp add: nextBucket_length w del: upt_Suc)
qed


lemma rotations_bucket_old:
  "is_array h w \<Longrightarrow> a < length h \<Longrightarrow>
   bucket_of (rotations k w h) (Some a) = bucket_of h (Some a)"
proof (induction k arbitrary: h)
  case 0
  show ?case by simp
next
  case (Suc k)
  have "bucket_of (rotations k w (nextBucket w h)) (Some a) = bucket_of (nextBucket w h) (Some a)"
    using Suc.prems by (intro Suc.IH nextBucket_is_array) (simp_all add: nextBucket_length)
  then show ?case using Suc.prems by (simp add: nextBucket_bucket_old)
qed


section \<open>Properties of \<^verbatim>\<open>stats\<close>\<close>

lemma reducer_fold_percentiles:
  "percentiles (foldl (reducer en h) acc w) = percentiles acc"
  by (induction w arbitrary: acc)
     (simp_all add: reducer_def add_counters_def Let_def split: option.splits)

lemma reducer_fold_latencyTimes:
  "latencyTimes (foldl (reducer en h) acc w) =
     latencyTimes acc @
     (if en then concat (map latencyTimes (List.map_filter (bucket_of h) w)) else [])"
  by (induction w arbitrary: acc)
     (simp_all add: reducer_def add_counters_def Let_def split: option.splits)

lemma reducer_fold_successes:
  "successes (foldl (reducer en h) acc w) =
     successes acc + sum_list (map successes (List.map_filter (bucket_of h) w))"
  by (induction w arbitrary: acc)
     (simp_all add: reducer_def add_counters_def Let_def split: option.splits)

lemma sentinel_fold_percentiles:
  "percentiles (foldl (\<lambda>t percentile. t\<lparr> percentiles := (percentiles t)(percentile \<mapsto> c) \<rparr>) t0 ps) p =
     (if p \<in> set ps then Some c else percentiles t0 p)"
  by (induction ps arbitrary: t0) simp_all

lemma sentinel_fold_others:
  "latencyMean (foldl (\<lambda>t percentile. t\<lparr> percentiles := (percentiles t)(percentile \<mapsto> c) \<rparr>) t0 ps) =
     latencyMean t0"
  "latencyTimes (foldl (\<lambda>t percentile. t\<lparr> percentiles := (percentiles t)(percentile \<mapsto> c) \<rparr>) t0 ps) =
     latencyTimes t0"
  "successes (foldl (\<lambda>t percentile. t\<lparr> percentiles := (percentiles t)(percentile \<mapsto> c) \<rparr>) t0 ps) =
     successes t0"
  by (induction ps arbitrary: t0) simp_all

lemma percentile_fold_others:
  "latencyTimes (foldl (\<lambda>t percentile.
      t\<lparr> percentiles := (percentiles t)
            (percentile \<mapsto> calculatePercentile percentile (latencyTimes t)) \<rparr>) t0 ps) =
     latencyTimes t0"
  "latencyMean (foldl (\<lambda>t percentile.
      t\<lparr> percentiles := (percentiles t)
            (percentile \<mapsto> calculatePercentile percentile (latencyTimes t)) \<rparr>) t0 ps) =
     latencyMean t0"
  "successes (foldl (\<lambda>t percentile.
      t\<lparr> percentiles := (percentiles t)
            (percentile \<mapsto> calculatePercentile percentile (latencyTimes t)) \<rparr>) t0 ps) =
     successes t0"
  by (induction ps arbitrary: t0) simp_all

lemma percentile_fold_percentiles:
  "percentiles (foldl (\<lambda>t percentile.
      t\<lparr> percentiles := (percentiles t)
            (percentile \<mapsto> calculatePercentile percentile (latencyTimes t)) \<rparr>) t0 ps) p =
     (if p \<in> set ps then Some (calculatePercentile p (latencyTimes t0)) else percentiles t0 p)"
  by (induction ps arbitrary: t0) simp_all

lemma stats_disabled_percentiles:
  "\<not> percentilesEnabled this \<Longrightarrow>
   percentiles (stats h this) p = (if p \<in> set (PERCENTILES this) then Some (- 1) else None)"
  by (simp add: stats_def sentinel_fold_percentiles reducer_fold_percentiles bucket_def)

lemma stats_disabled_latencyMean:
  "\<not> percentilesEnabled this \<Longrightarrow> latencyMean (stats h this) = Some (- 1)"
  by (simp add: stats_def sentinel_fold_others)

lemma stats_enabled_latencyTimes:
  "percentilesEnabled this \<Longrightarrow> latencyTimes (stats h this) = sort (pooled h this)"
  by (simp add: stats_def percentile_fold_others reducer_fold_latencyTimes pooled_def
      buckets_of_def bucket_def Let_def)

lemma stats_enabled_percentiles:
  "percentilesEnabled this \<Longrightarrow>
   percentiles (stats h this) p =
     (if p \<in> set (PERCENTILES this)
      then Some (calculatePercentile p (sort (pooled h this))) else None)"
  by (simp add: stats_def percentile_fold_percentiles reducer_fold_latencyTimes
      reducer_fold_percentiles pooled_def buckets_of_def bucket_def Let_def)

lemma stats_enabled_latencyMean:
  "percentilesEnabled this \<Longrightarrow>
   latencyMean (stats h this) =
     Some (if pooled h this = [] then 0
           else double (foldl (\<lambda>a b. double (a + b)) 0 (sort (pooled h this))
                        / of_nat (length (pooled h this))))"
proof -
  assume on: "percentilesEnabled this"
  have lt: "latencyTimes (foldl (reducer True h) bucket (array_of h (WINDOW this))) =
      pooled h this"
    by (simp add: reducer_fold_latencyTimes pooled_def buckets_of_def bucket_def)
  show ?thesis
  proof (cases "pooled h this = []")
    case True
    then show ?thesis using on by (simp add: stats_def percentile_fold_others Let_def lt double_0)
  next
    case False
    then show ?thesis using on by (simp add: stats_def percentile_fold_others Let_def lt double_0)
  qed
qed

lemma stats_successes:
  "successes (stats h this) = sum_list (map successes (buckets_of h this))"
  by (simp add: stats_def percentile_fold_others sentinel_fold_others reducer_fold_successes
      buckets_of_def bucket_def Let_def)

lemma calculatePercentile_empty: "calculatePercentile p [] = 0"
  by (simp add: calculatePercentile_def js_index_def or_zero_def double_0)


lemma constructor_fields:
  assumes "constructor h opts = Inr (h0, this)"
  shows "percentilesEnabled this = rollingPercentilesEnabled opts"
    and "PERCENTILES this = [0, 1/4, 1/2, 3/4, 9/10, 19/20, 99/100, 199/200, 1]"
    and "BUCKETS this = rollingCountBuckets opts"
    and "TIMEOUT this = rollingCountTimeout opts"
    and "WINDOW this = length h"
  using assms
  by (auto simp: constructor_def new_Array_def alloc_def Let_def split: if_splits)


lemma nearest_rank_index:
  fixes p :: rat
  assumes "0 < p" "p \<le> 1" "0 < n"
  shows "0 \<le> \<lceil>p * of_nat n\<rceil> - 1" and "\<lceil>p * of_nat n\<rceil> - 1 < int n"
proof -
  have "0 < p * of_nat n" using assms by simp
  then have "0 < \<lceil>p * of_nat n\<rceil>" by (simp add: ceiling_less_iff less_ceiling_iff)
  then show "0 \<le> \<lceil>p * of_nat n\<rceil> - 1" by simp
  have "p * of_nat n \<le> of_nat n" using assms by (simp add: mult_le_cancel_right2)
  then have "p * of_nat n \<le> of_int (int n)" by simp
  then have "\<lceil>p * of_nat n\<rceil> \<le> int n" by (simp only: ceiling_le_iff)
  then show "\<lceil>p * of_nat n\<rceil> - 1 < int n" by simp
qed

lemma sorted_first_Min:
  fixes xs :: "rat list"
  shows "xs \<noteq> [] \<Longrightarrow> sorted xs \<Longrightarrow> xs ! 0 = Min (set xs)"
  by (cases xs) (auto intro!: Min_eqI[symmetric])


lemma constructor_Inr_bounds:
  "constructor h opts = Inr r \<Longrightarrow> 0 \<le> rollingCountBuckets opts \<and> rollingCountBuckets opts < 2 ^ 32"
  by (auto simp: constructor_def new_Array_def split: if_splits)

lemma increment_Inr:
  assumes "current h this = Inr (a, b)"
  shows "increment h this property latencyRunTime =
     Inr (h[a := Bucket_obj
            (if property = Successes \<or> property = Failures \<or> property = Timeouts
             then (plusplus property b)\<lparr> latencyTimes :=
                    latencyTimes (plusplus property b) @ [or_zero latencyRunTime] \<rparr>
             else plusplus property b)])"
  by (simp add: increment_def assms Let_def)

lemma plusplus_latencyTimes: "latencyTimes (plusplus property b) = latencyTimes b"
  by (cases property) simp_all

lemma plusplus_isCircuitBreakerOpen:
  "isCircuitBreakerOpen (plusplus property b) = isCircuitBreakerOpen b"
  by (cases property) simp_all

lemma or_zero_eq: "or_zero v = (case v of None \<Rightarrow> 0 | Some x \<Rightarrow> x)"
  by (simp add: or_zero_def split: option.splits)


lemma stats_cong:
  assumes "array_of h' (WINDOW this) = array_of h (WINDOW this)"
    and "\<And>slot. bucket_of h' slot = bucket_of h slot"
  shows "stats h' this = stats h this"
proof -
  have "reducer en h' = reducer en h" for en
    by (intro ext) (simp add: reducer_def assms(2))
  then show ?thesis by (simp add: stats_def assms(1))
qed


lemma Status_open_Inr:
  "current h this = Inr (a, b) \<Longrightarrow>
   Status_open h this = Inr (h[a := Bucket_obj (b\<lparr> isCircuitBreakerOpen := Some True \<rparr>)])"
  by (simp add: Status_open_def)

lemma Status_close_Inr:
  "current h this = Inr (a, b) \<Longrightarrow>
   Status_close h this = Inr (h[a := Bucket_obj (b\<lparr> isCircuitBreakerOpen := Some False \<rparr>)])"
  by (simp add: Status_close_def)


lemma configured_quantile:
  assumes "p \<in> {1 / 4, 1 / 2, 3 / 4, 9 / 10, 19 / 20, 99 / 100, 199 / 200, 1 :: rat}"
  shows "1 / 4 \<le> double p \<and> double p \<le> 1 \<and> \<bar>double p - p\<bar> * 2 ^ 54 < double p \<and>
         200 * p \<in> \<int> \<and> 0 < p \<and> p \<le> 1"
  using assms
  by (elim insertE emptyE; hypsubst)
     (simp_all add: double_quarter double_half double_three_quarters double_1 double_0_9
        double_0_95 double_0_99 double_0_995)

lemma calculatePercentile_zero:
  "xs \<noteq> [] \<Longrightarrow> calculatePercentile 0 xs = xs ! 0"
  by (simp add: calculatePercentile_def js_index_def or_zero_def double_0)

lemma calculatePercentile_index:
  assumes "double p \<noteq> 0"
    and "0 < \<lceil>double (double p * of_nat (length xs))\<rceil>"
    and "\<lceil>double (double p * of_nat (length xs))\<rceil> \<le> int (length xs)"
  shows "nat (\<lceil>double (double p * of_nat (length xs))\<rceil> - 1) < length xs"
    and "calculatePercentile p xs = xs ! nat (\<lceil>double (double p * of_nat (length xs))\<rceil> - 1)"
proof -
  show "nat (\<lceil>double (double p * of_nat (length xs))\<rceil> - 1) < length xs"
    using assms(2,3) by linarith
  have "js_index xs (\<lceil>double (double p * of_nat (length xs))\<rceil> - 1) =
      Some (xs ! nat (\<lceil>double (double p * of_nat (length xs))\<rceil> - 1))"
    using assms(2,3) by (simp add: js_index_def)
  then show "calculatePercentile p xs = xs ! nat (\<lceil>double (double p * of_nat (length xs))\<rceil> - 1)"
    using assms(1) by (simp add: calculatePercentile_def Let_def or_zero_def)
qed

lemma calculatePercentile_configured:
  assumes "xs \<noteq> []" and "length xs < 2 ^ 32"
    and "p \<in> {1 / 4, 1 / 2, 3 / 4, 9 / 10, 19 / 20, 99 / 100, 199 / 200, 1 :: rat}"
  shows "nat (\<lceil>p * of_nat (length xs)\<rceil> - 1) < length xs"
    and "calculatePercentile p xs = xs ! nat (\<lceil>p * of_nat (length xs)\<rceil> - 1)"
proof -
  note q = configured_quantile[OF assms(3)]
  have n: "0 < length xs" using assms(1) by simp
  have c: "\<lceil>double (double p * of_nat (length xs))\<rceil> = \<lceil>p * of_nat (length xs)\<rceil>"
    using q n assms(2) by (intro nearest_rank_double) simp_all
  have i: "0 \<le> \<lceil>p * of_nat (length xs)\<rceil> - 1" "\<lceil>p * of_nat (length xs)\<rceil> - 1 < int (length xs)"
    using q n by (simp_all add: nearest_rank_index)
  have d: "double p \<noteq> 0" using q by linarith
  have "0 < \<lceil>double (double p * of_nat (length xs))\<rceil>"
    and "\<lceil>double (double p * of_nat (length xs))\<rceil> \<le> int (length xs)"
    unfolding c using i by linarith+
  from calculatePercentile_index[OF d this]
  show "nat (\<lceil>p * of_nat (length xs)\<rceil> - 1) < length xs"
    and "calculatePercentile p xs = xs ! nat (\<lceil>p * of_nat (length xs)\<rceil> - 1)"
    unfolding c by simp_all
qed

lemma calculatePercentile_double:
  assumes "xs \<noteq> []" and "length xs < 2 ^ 32" and "double p = p" and "0 < p" and "p \<le> 1"
  shows "nat (\<lceil>double (p * of_nat (length xs))\<rceil> - 1) < length xs"
    and "calculatePercentile p xs = xs ! nat (\<lceil>double (p * of_nat (length xs))\<rceil> - 1)"
proof -
  have n: "0 < length xs" using assms(1) by simp
  have d: "double p \<noteq> 0" using assms(3,4) by simp
  note r = double_product_index[OF assms(3,4,5) n assms(2)]
  from calculatePercentile_index[of p xs] d r
  show "nat (\<lceil>double (p * of_nat (length xs))\<rceil> - 1) < length xs"
    and "calculatePercentile p xs = xs ! nat (\<lceil>double (p * of_nat (length xs))\<rceil> - 1)"
    by (simp_all add: assms(3))
qed

lemma calculatePercentile_rounds_the_product:
  "calculatePercentile (7 / 100) (map of_nat [1..<101]) = 8"
proof -
  have "double (double (7 / 100) * of_nat (length (map rat_of_nat [1..<101]))) =
      7881299347898369 / 1125899906842624"
    by (simp add: double_0_07 double_0_07_times_100)
  moreover have "\<lceil>7881299347898369 / 1125899906842624 :: rat\<rceil> = 8"
    by (rule ceiling_unique) simp_all
  ultimately have "\<lceil>double (double (7 / 100) * of_nat (length (map rat_of_nat [1..<101])))\<rceil> = 8"
    by (simp only:)
  moreover have "double (7 / 100) \<noteq> 0" by (simp add: double_0_07)
  ultimately have "calculatePercentile (7 / 100) (map of_nat [1..<101]) =
      or_zero (js_index (map rat_of_nat [1..<101]) 7)"
    by (simp add: calculatePercentile_def Let_def del: length_map map_map length_upt)
  also have "\<dots> = 8" by (simp add: js_index_def or_zero_def)
  finally show ?thesis .
qed

lemma current_is_first_bucket:
  assumes "current h this = Inr (a, b)"
  shows "buckets_of h this = b # tl (buckets_of h this)"
proof -
  from current_Inr[OF assms] obtain rest where
    w: "array_of h (WINDOW this) = Some a # rest" and b: "bucket_of h (Some a) = Some b"
    by (cases "array_of h (WINDOW this)") auto
  show ?thesis by (simp add: buckets_of_def w b)
qed

lemma bucket_write_flags:
  assumes "primed n h this" and "current h this = Inr (a, b)"
  shows "map isCircuitBreakerOpen (buckets_of (h[a := Bucket_obj b']) this) =
     isCircuitBreakerOpen b' # tl (map isCircuitBreakerOpen (buckets_of h this))"
  by (simp add: bucket_write_primed(2)[OF assms] map_tl)

lemma step_flags:
  assumes "primed n h this" and "0 < n"
  shows "\<exists>h1. step this h a = Inr h1 \<and> primed n h1 this \<and>
     map isCircuitBreakerOpen (buckets_of h1 this) =
       flags_after (map isCircuitBreakerOpen (buckets_of h this)) a"
proof -
  from primed_current[OF assms] obtain r b where c: "current h this = Inr (r, b)" by blast
  note first = current_is_first_bucket[OF c]
  have hd: "map isCircuitBreakerOpen (buckets_of h this) =
      isCircuitBreakerOpen b # tl (map isCircuitBreakerOpen (buckets_of h this))"
    by (subst first) (simp add: map_tl)
  show ?thesis
  proof (cases a)
    case (Increment property latencyRunTime)
    let ?b = "if property = Successes \<or> property = Failures \<or> property = Timeouts
             then (plusplus property b)\<lparr> latencyTimes :=
                    latencyTimes (plusplus property b) @ [or_zero latencyRunTime] \<rparr>
             else plusplus property b"
    have "isCircuitBreakerOpen ?b = isCircuitBreakerOpen b"
      by (simp add: plusplus_isCircuitBreakerOpen)
    then have "map isCircuitBreakerOpen (buckets_of (h[r := Bucket_obj ?b]) this) =
        map isCircuitBreakerOpen (buckets_of h this)"
      using bucket_write_flags[OF assms(1) c, of ?b] hd by simp
    then show ?thesis
      using bucket_write_primed(1)[OF assms(1) c, of ?b]
      by (simp only: Increment step.simps increment_Inr[OF c] flags_after.simps) simp
  next
    case Open
    show ?thesis
      using bucket_write_primed(1)[OF assms(1) c] bucket_write_flags[OF assms(1) c]
      by (simp add: Open Status_open_Inr[OF c])
  next
    case Close
    show ?thesis
      using bucket_write_primed(1)[OF assms(1) c] bucket_write_flags[OF assms(1) c]
      by (simp add: Close Status_close_Inr[OF c])
  next
    case Rotate
    show ?thesis
      using nextBucket_primed(1,2)[OF assms]
      by (simp add: Rotate map_butlast) (simp add: bucket_def)
  qed
qed

lemma run_flags:
  assumes "0 < n"
  shows "primed n h this \<Longrightarrow>
     \<exists>h1. run this h as = Inr h1 \<and> primed n h1 this \<and>
       map isCircuitBreakerOpen (buckets_of h1 this) =
         foldl flags_after (map isCircuitBreakerOpen (buckets_of h this)) as"
proof (induction as arbitrary: h)
  case Nil
  then show ?case by simp
next
  case (Cons a as)
  from step_flags[OF Cons.prems assms, of a] obtain h1 where
    s: "step this h a = Inr h1" and p: "primed n h1 this"
    and f: "map isCircuitBreakerOpen (buckets_of h1 this) =
       flags_after (map isCircuitBreakerOpen (buckets_of h this)) a"
    by blast
  from Cons.IH[OF p] show ?case by (simp add: s f)
qed

section \<open>The claims\<close>

subsection \<open>C1: nearest-rank percentiles\<close>

text \<open>
  C1.  On a sorted, non-empty list (an array, so of fewer than \<open>2\<^sup>3\<^sup>2\<close> elements)
  \<^verbatim>\<open>calculatePercentile\<close> follows the nearest-rank rule.  Quantile 0 gives the first element,
  which is the minimum.  Each of the eight configured quantiles \<open>p > 0\<close> gives the element at
  index \<open>\<lceil>p \<times> length\<rceil> - 1\<close>, an index of the list, where \<open>p \<times> length\<close> is the exact product
  of the decimal fraction: the two roundings of the code, of the literal and of the product,
  do not move the ceiling for these quantiles.  Every quantile \<open>0 < p \<le> 1\<close> that is a double
  gives the element at index \<open>\<lceil>p \<times> length\<rceil> - 1\<close> with the product as the machine computes
  it, again an index of the list.  With percentile tracking enabled, \<^verbatim>\<open>stats\<close> sorts the
  pooled latencies and applies \<^verbatim>\<open>calculatePercentile\<close> to the sorted list for every
  configured quantile.  For the pooled latencies 10, 20, 30, 40 the quantiles 0, 0.5 and 1
  give 10, 20 and 40.
\<close>

theorem percentile_nearest_rank:
  "(\<forall>xs. xs \<noteq> [] \<and> sorted xs \<and> length xs < 2 ^ 32 \<longrightarrow>
      calculatePercentile 0 xs = xs ! 0 \<and> xs ! 0 = Min (set xs) \<and>
      (\<forall>p \<in> {1 / 4, 1 / 2, 3 / 4, 9 / 10, 19 / 20, 99 / 100, 199 / 200, 1}.
         nat (\<lceil>p * of_nat (length xs)\<rceil> - 1) < length xs \<and>
         calculatePercentile p xs = xs ! nat (\<lceil>p * of_nat (length xs)\<rceil> - 1)) \<and>
      (\<forall>p. double p = p \<and> 0 < p \<and> p \<le> 1 \<longrightarrow>
         nat (\<lceil>double (p * of_nat (length xs))\<rceil> - 1) < length xs \<and>
         calculatePercentile p xs = xs ! nat (\<lceil>double (p * of_nat (length xs))\<rceil> - 1))) \<and>
   (percentilesEnabled this \<longrightarrow>
      latencyTimes (stats h this) = sort (pooled h this) \<and>
      (\<forall>p \<in> set (PERCENTILES this).
         percentiles (stats h this) p = Some (calculatePercentile p (latencyTimes (stats h this))))) \<and>
   (percentilesEnabled this \<and> sort (pooled h this) = [10, 20, 30, 40] \<and>
    {0, 1 / 2, 1} \<subseteq> set (PERCENTILES this) \<longrightarrow>
      percentiles (stats h this) 0 = Some 10 \<and>
      percentiles (stats h this) (1 / 2) = Some 20 \<and>
      percentiles (stats h this) 1 = Some 40)"
proof (intro conjI allI impI ballI)
  fix xs :: "rat list" assume xs: "xs \<noteq> [] \<and> sorted xs \<and> length xs < 2 ^ 32"
  then show "calculatePercentile 0 xs = xs ! 0" by (simp add: calculatePercentile_zero)
  from xs show "xs ! 0 = Min (set xs)" by (simp add: sorted_first_Min)
  {
    fix p :: rat
    assume p: "p \<in> {1 / 4, 1 / 2, 3 / 4, 9 / 10, 19 / 20, 99 / 100, 199 / 200, 1}"
    from xs have a: "xs \<noteq> []" and b: "length xs < 2 ^ 32" by simp_all
    show "nat (\<lceil>p * of_nat (length xs)\<rceil> - 1) < length xs"
      by (rule calculatePercentile_configured(1)[OF a b p])
    show "calculatePercentile p xs = xs ! nat (\<lceil>p * of_nat (length xs)\<rceil> - 1)"
      by (rule calculatePercentile_configured(2)[OF a b p])
  }
  {
    fix p :: rat
    assume p: "double p = p \<and> 0 < p \<and> p \<le> 1"
    from xs have a: "xs \<noteq> []" and b: "length xs < 2 ^ 32" by simp_all
    from p have c: "double p = p" and d: "0 < p" and e: "p \<le> 1" by simp_all
    show "nat (\<lceil>double (p * of_nat (length xs))\<rceil> - 1) < length xs"
      by (rule calculatePercentile_double(1)[OF a b c d e])
    show "calculatePercentile p xs = xs ! nat (\<lceil>double (p * of_nat (length xs))\<rceil> - 1)"
      by (rule calculatePercentile_double(2)[OF a b c d e])
  }
next
  assume "percentilesEnabled this"
  then show "latencyTimes (stats h this) = sort (pooled h this)"
    by (rule stats_enabled_latencyTimes)
next
  fix p assume "percentilesEnabled this" "p \<in> set (PERCENTILES this)"
  then show "percentiles (stats h this) p = Some (calculatePercentile p (latencyTimes (stats h this)))"
    by (simp add: stats_enabled_percentiles stats_enabled_latencyTimes)
next
  assume a: "percentilesEnabled this \<and> sort (pooled h this) = [10, 20, 30, 40] \<and>
    {0, 1 / 2, 1} \<subseteq> set (PERCENTILES this)"
  have ne: "[10, 20, 30, 40 :: rat] \<noteq> []" and len: "length [10, 20, 30, 40 :: rat] < 2 ^ 32"
    by simp_all
  have z: "calculatePercentile 0 [10, 20, 30, 40] = 10"
    using calculatePercentile_zero[OF ne] by simp
  have m: "calculatePercentile (1 / 2) [10, 20, 30, 40] = 20"
    using calculatePercentile_configured(2)[OF ne len, of "1 / 2"] by simp
  have t: "calculatePercentile 1 [10, 20, 30, 40] = 40"
    using calculatePercentile_configured(2)[OF ne len, of 1] by simp
  from a show "percentiles (stats h this) 0 = Some 10"
    by (simp add: stats_enabled_percentiles z)
  from a show "percentiles (stats h this) (1 / 2) = Some 20"
    by (simp add: stats_enabled_percentiles m)
  from a show "percentiles (stats h this) 1 = Some 40"
    by (simp add: stats_enabled_percentiles t)
qed

theorem percentile_nearest_rank_witness:
  "\<exists>h0 this h1.
     constructor []
       \<lparr> rollingCountBuckets = 2, rollingCountTimeout = 1000, rollingPercentilesEnabled = True \<rparr>
       = Inr (h0, this) \<and>
     run this h0 [Increment Successes (Some 30), Increment Failures (Some 10), Rotate,
                  Increment Timeouts (Some 40), Increment Successes (Some 20)] = Inr h1 \<and>
     percentilesEnabled this \<and>
     pooled h1 this = [40, 20, 30, 10] \<and>
     latencyTimes (stats h1 this) = [10, 20, 30, 40] \<and>
     percentiles (stats h1 this) 0 = Some 10 \<and>
     percentiles (stats h1 this) (1 / 2) = Some 20 \<and>
     percentiles (stats h1 this) 1 = Some 40 \<and>
     calculatePercentile (9 / 10) [10, 20, 30, 40] =
       [10, 20, 30, 40] ! nat (\<lceil>(9 / 10 :: rat) * 4\<rceil> - 1) \<and>
     calculatePercentile (3 / 4) [10, 20, 30, 40] =
       [10, 20, 30, 40] ! nat (\<lceil>double (3 / 4 * 4)\<rceil> - 1)"
proof -
  let ?opts = "\<lparr> rollingCountBuckets = 2, rollingCountTimeout = 1000,
                  rollingPercentilesEnabled = True \<rparr>"
  let ?s = "\<lparr> WINDOW = 0, BUCKETS = 2, TIMEOUT = 1000,
       PERCENTILES = [0, 1/4, 1/2, 3/4, 9/10, 19/20, 99/100, 199/200, 1],
       percentilesEnabled = True \<rparr>"
  let ?h0 = "[Array_obj [Some 1, Some 2], Bucket_obj bucket, Bucket_obj bucket]"
  let ?h1 = "[Array_obj [Some 3, Some 1],
        Bucket_obj (bucket\<lparr> failures := 1, successes := 1, latencyTimes := [30, 10] \<rparr>),
        Bucket_obj bucket,
        Bucket_obj (bucket\<lparr> successes := 1, timeouts := 1, latencyTimes := [40, 20] \<rparr>)]"
  have c: "constructor [] ?opts = Inr (?h0, ?s)"
    by (simp add: constructor_eq numeral_2_eq_2)
  have r: "run ?s ?h0 [Increment Successes (Some 30), Increment Failures (Some 10), Rotate,
                  Increment Timeouts (Some 40), Increment Successes (Some 20)] = Inr ?h1"
    by (simp add: alloc_def array_of_def array_store_def bucket_of_def js_index_def
        nextBucket_def array_pop_def array_unshift_def current_def increment_def or_zero_def
        Let_def bucket_def)
  have p: "pooled ?h1 ?s = [40, 20, 30, 10]"
    by (simp add: pooled_def buckets_of_def array_of_def bucket_of_def bucket_def)
  have on: "percentilesEnabled ?s" by simp
  have srt: "sort (pooled ?h1 ?s) = [10, 20, 30, 40]" unfolding p by simp
  have sub: "{0, 1 / 2, 1} \<subseteq> set (PERCENTILES ?s)" by simp
  have xs: "[10, 20, 30, 40 :: rat] \<noteq> [] \<and> sorted [10, 20, 30, 40 :: rat] \<and>
      length [10, 20, 30, 40 :: rat] < 2 ^ 32" by simp
  have q1: "(9 / 10 :: rat) \<in> {1 / 4, 1 / 2, 3 / 4, 9 / 10, 19 / 20, 99 / 100, 199 / 200, 1}"
    by simp
  have q2: "double (3 / 4) = 3 / 4 \<and> (0 :: rat) < 3 / 4 \<and> (3 / 4 :: rat) \<le> 1"
    by (simp add: double_three_quarters)
  note T = percentile_nearest_rank[of ?s ?h1]
  note X = T[THEN conjunct1, rule_format, OF xs, THEN conjunct2, THEN conjunct2]
  have e: "latencyTimes (stats ?h1 ?s) = sort (pooled ?h1 ?s)"
    using T[THEN conjunct2, THEN conjunct1, rule_format, OF on] by (rule conjunct1)
  have v: "percentiles (stats ?h1 ?s) 0 = Some 10 \<and>
      percentiles (stats ?h1 ?s) (1 / 2) = Some 20 \<and>
      percentiles (stats ?h1 ?s) 1 = Some 40"
    by (rule T[THEN conjunct2, THEN conjunct2, rule_format, OF conjI[OF on conjI[OF srt sub]]])
  have k1: "calculatePercentile (9 / 10) [10, 20, 30, 40] =
      [10, 20, 30, 40] ! nat (\<lceil>(9 / 10 :: rat) * of_nat (length [10, 20, 30, 40 :: rat])\<rceil> - 1)"
    using X[THEN conjunct1, rule_format, OF q1] by (rule conjunct2)
  have k2: "calculatePercentile (3 / 4) [10, 20, 30, 40] =
      [10, 20, 30, 40] ! nat (\<lceil>double (3 / 4 * of_nat (length [10, 20, 30, 40 :: rat]))\<rceil> - 1)"
    using X[THEN conjunct2, rule_format, OF q2] by (rule conjunct2)
  have k1': "calculatePercentile (9 / 10) [10, 20, 30, 40] =
      [10, 20, 30, 40] ! nat (\<lceil>(9 / 10 :: rat) * 4\<rceil> - 1)"
    using k1 by simp
  have k2': "calculatePercentile (3 / 4) [10, 20, 30, 40] =
      [10, 20, 30, 40] ! nat (\<lceil>double (3 / 4 * 4)\<rceil> - 1)"
    using k2 by simp
  note e' = e[unfolded srt]
  note v1 = v[THEN conjunct1] and v2 = v[THEN conjunct2, THEN conjunct1]
    and v3 = v[THEN conjunct2, THEN conjunct2]
  show ?thesis
    by (rule exI[of _ ?h0], rule exI[of _ ?s], rule exI[of _ ?h1])
       (intro conjI c r on p e' v1 v2 v3 k1' k2')
qed

subsection \<open>C2: the array returned by \<^verbatim>\<open>window\<close>\<close>

text \<open>
  C2 (as amended).  The accessor \<^verbatim>\<open>window\<close> returns a newly allocated array with the same
  slots as the internal one and changes no existing object.  Whatever the caller then does
  to the returned array itself, the internal window, every bucket and \<^verbatim>\<open>stats\<close> stay as
  they were.  The copy is shallow: its slots refer to the internal bucket objects, so an
  assignment to a property of a bucket reached through the copy is an assignment to the
  bucket of the internal window at the same index.
\<close>

theorem window_copy_is_shallow:
  assumes "is_array h (WINDOW this)" and "window h this = (copy, h1)"
  shows "copy \<noteq> WINDOW this \<and>
         array_of h1 copy = array_of h (WINDOW this) \<and>
         array_of h1 (WINDOW this) = array_of h (WINDOW this) \<and>
         (\<forall>w'. array_of (array_store h1 copy w') (WINDOW this) = array_of h (WINDOW this) \<and>
               (\<forall>slot. bucket_of (array_store h1 copy w') slot = bucket_of h slot) \<and>
               stats (array_store h1 copy w') this = stats h this) \<and>
         (\<forall>i a b v.
            js_index (array_of h (WINDOW this)) i = Some (Some a) \<and> bucket_of h (Some a) = Some b
            \<longrightarrow> caller_set_successes h1 copy i v = Inr (h1[a := Bucket_obj (b\<lparr> successes := v \<rparr>)]) \<and>
                bucket_of (h1[a := Bucket_obj (b\<lparr> successes := v \<rparr>)])
                  (array_of (h1[a := Bucket_obj (b\<lparr> successes := v \<rparr>)]) (WINDOW this) ! nat i) =
                  Some (b\<lparr> successes := v \<rparr>))"
proof -
  let ?w = "array_of h (WINDOW this)"
  have copy: "copy = length h" and h1: "h1 = h @ [Array_obj ?w]"
    using assms(2) by (simp_all add: window_def alloc_def)
  have lt: "WINDOW this < length h" using assms(1) by (simp add: is_array_def)
  have ne: "copy \<noteq> WINDOW this" using lt copy by simp
  have c1: "array_of h1 copy = ?w" by (simp add: h1 copy array_of_def)
  have c2: "array_of h1 (WINDOW this) = ?w" unfolding h1 using lt by (rule array_of_append)
  have bk1: "bucket_of h1 slot = bucket_of h slot" for slot
    by (cases slot) (auto simp: h1 bucket_of_def nth_append)
  have arr1: "is_array h1 copy" by (simp add: h1 copy is_array_def)
  have c3a: "array_of (array_store h1 copy w') (WINDOW this) = ?w" for w'
    using ne by (simp add: array_of_store_other c2)
  have c3b: "bucket_of (array_store h1 copy w') slot = bucket_of h slot" for w' slot
    by (simp add: bucket_of_store[OF arr1] bk1)
  have c3c: "stats (array_store h1 copy w') this = stats h this" for w'
    by (rule stats_cong) (rule c3a c3b)+
  have c4a: "caller_set_successes h1 copy i v = Inr (h1[a := Bucket_obj (b\<lparr> successes := v \<rparr>)])"
    if "js_index ?w i = Some (Some a) \<and> bucket_of h (Some a) = Some b" for i a b v
    using that by (simp add: caller_set_successes_def c1 bk1)
  have c4b: "bucket_of (h1[a := Bucket_obj (b\<lparr> successes := v \<rparr>)])
        (array_of (h1[a := Bucket_obj (b\<lparr> successes := v \<rparr>)]) (WINDOW this) ! nat i) =
        Some (b\<lparr> successes := v \<rparr>)"
    if "js_index ?w i = Some (Some a) \<and> bucket_of h (Some a) = Some b" for i a b v
  proof -
    from that have i: "js_index ?w i = Some (Some a)" and b: "bucket_of h (Some a) = Some b"
      by simp_all
    have b1: "bucket_of h1 (Some a) = Some b" by (simp add: bk1 b)
    have nth: "?w ! nat i = Some a" using i by (simp add: js_index_def split: if_splits)
    have "array_of (h1[a := Bucket_obj (b\<lparr> successes := v \<rparr>)]) (WINDOW this) = ?w"
      by (simp add: bucket_write_array[OF b1] c2)
    then show ?thesis by (simp add: nth bucket_write_bucket[OF b1])
  qed
  show ?thesis
    by (intro conjI allI impI ne c1 c2 c3a c3b c3c; (erule c4a | erule c4b))
qed


theorem window_copy_is_shallow_witness:
  "\<exists>h0 this copy h1.
     constructor []
       \<lparr> rollingCountBuckets = 2, rollingCountTimeout = 1000, rollingPercentilesEnabled = True \<rparr>
       = Inr (h0, this) \<and>
     is_array h0 (WINDOW this) \<and>
     window h0 this = (copy, h1) \<and>
     copy \<noteq> WINDOW this \<and>
     array_of h1 copy = [Some 1, Some 2] \<and>
     array_of (array_store h1 copy []) (WINDOW this) = [Some 1, Some 2] \<and>
     stats (array_store h1 copy [None, Some 2, Some 2]) this = stats h0 this \<and>
     caller_set_successes h1 copy 1 7 = Inr (h1[2 := Bucket_obj (bucket\<lparr> successes := 7 \<rparr>)]) \<and>
     bucket_of (h1[2 := Bucket_obj (bucket\<lparr> successes := 7 \<rparr>)])
       (array_of (h1[2 := Bucket_obj (bucket\<lparr> successes := 7 \<rparr>)]) (WINDOW this) ! 1) =
       Some (bucket\<lparr> successes := 7 \<rparr>)"
proof -
  let ?opts = "\<lparr> rollingCountBuckets = 2, rollingCountTimeout = 1000,
                  rollingPercentilesEnabled = True \<rparr>"
  let ?s = "\<lparr> WINDOW = 0, BUCKETS = 2, TIMEOUT = 1000,
       PERCENTILES = [0, 1/4, 1/2, 3/4, 9/10, 19/20, 99/100, 199/200, 1],
       percentilesEnabled = True \<rparr>"
  let ?h0 = "[Array_obj [Some 1, Some 2], Bucket_obj bucket, Bucket_obj bucket]"
  let ?h1 = "[Array_obj [Some 1, Some 2], Bucket_obj bucket, Bucket_obj bucket,
              Array_obj [Some 1, Some 2]]"
  have c: "constructor [] ?opts = Inr (?h0, ?s)"
    by (simp add: constructor_eq numeral_2_eq_2)
  have arr: "is_array ?h0 (WINDOW ?s)" by (simp add: is_array_def)
  have w: "window ?h0 ?s = (3, ?h1)" by (simp add: window_def alloc_def array_of_def)
  have w0: "array_of ?h0 (WINDOW ?s) = [Some 1, Some 2]" by (simp add: array_of_def)
  have i: "js_index (array_of ?h0 (WINDOW ?s)) 1 = Some (Some 2) \<and>
           bucket_of ?h0 (Some 2) = Some bucket"
    unfolding w0 by (simp add: js_index_def bucket_of_def)
  note T = window_copy_is_shallow[OF arr w, unfolded w0]
  note t1 = T[THEN conjunct1] and t2 = T[THEN conjunct2, THEN conjunct1]
    and t4 = T[THEN conjunct2, THEN conjunct2, THEN conjunct2, THEN conjunct1]
    and t5 = T[THEN conjunct2, THEN conjunct2, THEN conjunct2, THEN conjunct2, rule_format,
               OF i[unfolded w0]]
  have t5b: "bucket_of (?h1[2 := Bucket_obj (bucket\<lparr> successes := 7 \<rparr>)])
       (array_of (?h1[2 := Bucket_obj (bucket\<lparr> successes := 7 \<rparr>)]) (WINDOW ?s) ! 1) =
       Some (bucket\<lparr> successes := 7 \<rparr>)"
    using t5[of 7, THEN conjunct2] by simp
  show ?thesis
    by (rule exI[of _ ?h0], rule exI[of _ ?s], rule exI[of _ 3], rule exI[of _ ?h1])
       (intro conjI c arr w t1 t2 t4[THEN spec, THEN conjunct1]
          t4[THEN spec, THEN conjunct2, THEN conjunct2] t5[THEN conjunct1] t5b)
qed

theorem window_copy_bucket_counterexample:
  "constructor []
     \<lparr> rollingCountBuckets = 1, rollingCountTimeout = 1000, rollingPercentilesEnabled = True \<rparr>
     = Inr ([Array_obj [Some 1], Bucket_obj bucket],
            \<lparr> WINDOW = 0, BUCKETS = 1, TIMEOUT = 1000,
              PERCENTILES = [0, 1/4, 1/2, 3/4, 9/10, 19/20, 99/100, 199/200, 1],
              percentilesEnabled = True \<rparr>) \<and>
   window [Array_obj [Some 1], Bucket_obj bucket]
     \<lparr> WINDOW = 0, BUCKETS = 1, TIMEOUT = 1000,
       PERCENTILES = [0, 1/4, 1/2, 3/4, 9/10, 19/20, 99/100, 199/200, 1],
       percentilesEnabled = True \<rparr>
     = (2, [Array_obj [Some 1], Bucket_obj bucket, Array_obj [Some 1]]) \<and>
   caller_set_successes [Array_obj [Some 1], Bucket_obj bucket, Array_obj [Some 1]] 2 0 5
     = Inr [Array_obj [Some 1], Bucket_obj (bucket\<lparr> successes := 5 \<rparr>), Array_obj [Some 1]] \<and>
   current [Array_obj [Some 1], Bucket_obj bucket, Array_obj [Some 1]]
     \<lparr> WINDOW = 0, BUCKETS = 1, TIMEOUT = 1000,
       PERCENTILES = [0, 1/4, 1/2, 3/4, 9/10, 19/20, 99/100, 199/200, 1],
       percentilesEnabled = True \<rparr>
     = Inr (1, bucket) \<and>
   current [Array_obj [Some 1], Bucket_obj (bucket\<lparr> successes := 5 \<rparr>), Array_obj [Some 1]]
     \<lparr> WINDOW = 0, BUCKETS = 1, TIMEOUT = 1000,
       PERCENTILES = [0, 1/4, 1/2, 3/4, 9/10, 19/20, 99/100, 199/200, 1],
       percentilesEnabled = True \<rparr>
     = Inr (1, bucket\<lparr> successes := 5 \<rparr>) \<and>
   successes (stats [Array_obj [Some 1], Bucket_obj bucket, Array_obj [Some 1]]
     \<lparr> WINDOW = 0, BUCKETS = 1, TIMEOUT = 1000,
       PERCENTILES = [0, 1/4, 1/2, 3/4, 9/10, 19/20, 99/100, 199/200, 1],
       percentilesEnabled = True \<rparr>) = 0 \<and>
   successes (stats [Array_obj [Some 1], Bucket_obj (bucket\<lparr> successes := 5 \<rparr>),
                     Array_obj [Some 1]]
     \<lparr> WINDOW = 0, BUCKETS = 1, TIMEOUT = 1000,
       PERCENTILES = [0, 1/4, 1/2, 3/4, 9/10, 19/20, 99/100, 199/200, 1],
       percentilesEnabled = True \<rparr>) = 5"
  by (simp add: constructor_eq window_def alloc_def array_of_def caller_set_successes_def
      js_index_def bucket_of_def current_def stats_successes buckets_of_def)
     (simp add: bucket_def)


subsection \<open>C3: the sentinel of disabled percentile tracking\<close>

text \<open>
  C3.  When percentile tracking is disabled, \<^verbatim>\<open>stats\<close> returns \<^verbatim>\<open>latencyMean = -1\<close> and a
  \<^verbatim>\<open>percentiles\<close> map that has exactly the configured quantiles as keys, each with the value
  \<open>-1\<close>.  The store \<open>h\<close> is arbitrary, so this holds whatever was recorded before.
\<close>

theorem stats_disabled_sentinel:
  assumes "\<not> percentilesEnabled this"
  shows "latencyMean (stats h this) = Some (- 1) \<and>
         (\<forall>p \<in> set (PERCENTILES this). percentiles (stats h this) p = Some (- 1)) \<and>
         dom (percentiles (stats h this)) = set (PERCENTILES this)"
  using assms
  by (auto simp: stats_disabled_latencyMean stats_disabled_percentiles dom_def)

theorem stats_disabled_sentinel_witness:
  "\<exists>h0 this h1.
     constructor []
       \<lparr> rollingCountBuckets = 3, rollingCountTimeout = 1000, rollingPercentilesEnabled = False \<rparr>
       = Inr (h0, this) \<and>
     run this h0 [Increment Successes (Some 5), Rotate, Increment Timeouts (Some 7),
                  Increment Failures None] = Inr h1 \<and>
     latencyMean (stats h1 this) = Some (- 1) \<and>
     percentiles (stats h1 this) (1 / 2) = Some (- 1) \<and>
     dom (percentiles (stats h1 this)) = {0, 1/4, 1/2, 3/4, 9/10, 19/20, 99/100, 199/200, 1}"
proof -
  let ?opts = "\<lparr> rollingCountBuckets = 3, rollingCountTimeout = 1000,
                  rollingPercentilesEnabled = False \<rparr>"
  obtain h0 this where c: "constructor [] ?opts = Inr (h0, this)"
    by (simp add: constructor_eq)
  have "primed (nat (rollingCountBuckets ?opts)) h0 this"
    by (rule constructor_primed(1)[OF _ _ c]) simp_all
  then obtain h1 where r: "run this h0 [Increment Successes (Some 5), Rotate,
      Increment Timeouts (Some 7), Increment Failures None] = Inr h1"
    using run_primed by fastforce
  have off: "\<not> percentilesEnabled this" and ps: "PERCENTILES this = [0, 1/4, 1/2, 3/4, 9/10, 19/20, 99/100, 199/200, 1]"
    using constructor_fields[OF c] by simp_all
  from stats_disabled_sentinel[OF off, of h1] show ?thesis
    using c r by (auto simp: ps)
qed


subsection \<open>C4: the empty latency pool\<close>

text \<open>
  C4.  When percentile tracking is enabled and the buckets of the window hold no latency
  sample, \<^verbatim>\<open>stats\<close> returns \<^verbatim>\<open>latencyMean = 0\<close> and the value \<open>0\<close> for every configured
  quantile.
\<close>

theorem stats_empty_pool_zero:
  assumes "percentilesEnabled this" and "pooled h this = []"
  shows "latencyMean (stats h this) = Some 0 \<and>
         (\<forall>p \<in> set (PERCENTILES this). percentiles (stats h this) p = Some 0) \<and>
         dom (percentiles (stats h this)) = set (PERCENTILES this)"
  using assms
  by (auto simp: stats_enabled_latencyMean stats_enabled_percentiles calculatePercentile_empty
      dom_def)

theorem stats_empty_pool_zero_witness:
  "\<exists>h0 this.
     constructor []
       \<lparr> rollingCountBuckets = 3, rollingCountTimeout = 1000, rollingPercentilesEnabled = True \<rparr>
       = Inr (h0, this) \<and>
     percentilesEnabled this \<and> pooled h0 this = [] \<and>
     latencyMean (stats h0 this) = Some 0 \<and>
     percentiles (stats h0 this) (99 / 100) = Some 0 \<and>
     dom (percentiles (stats h0 this)) = {0, 1/4, 1/2, 3/4, 9/10, 19/20, 99/100, 199/200, 1}"
proof -
  let ?opts = "\<lparr> rollingCountBuckets = 3, rollingCountTimeout = 1000,
                  rollingPercentilesEnabled = True \<rparr>"
  obtain h0 this where c: "constructor [] ?opts = Inr (h0, this)"
    by (simp add: constructor_eq)
  have "buckets_of h0 this = replicate (nat (rollingCountBuckets ?opts)) bucket"
    by (rule constructor_primed(2)[OF _ _ c]) simp_all
  then have empty: "pooled h0 this = []" by (simp add: pooled_def bucket_def)
  have on: "percentilesEnabled this" and ps: "PERCENTILES this = [0, 1/4, 1/2, 3/4, 9/10, 19/20, 99/100, 199/200, 1]"
    using constructor_fields[OF c] by simp_all
  from stats_empty_pool_zero[OF on empty] show ?thesis
    using c on empty by (auto simp: ps)
qed


subsection \<open>C5: the length of the window\<close>

text \<open>
  C5 (as amended).  For every bucket count \<open>N\<close> with \<open>0 < N < 2\<^sup>3\<^sup>2\<close> the constructor
  succeeds, the window has exactly \<open>N\<close> slots, and every slot holds a fresh, empty bucket.
  After any sequence of method calls and rotations the window still has exactly \<open>N\<close> slots,
  each holding a bucket, and one more rotation does not change its length.  For
  \<open>N \<ge> 2\<^sup>3\<^sup>2\<close> there is no window: the array allocation throws.
\<close>

theorem window_length_invariant:
  assumes "0 < rollingCountBuckets opts" and "rollingCountBuckets opts < 2 ^ 32"
  shows "\<exists>h0 this.
     constructor h opts = Inr (h0, this) \<and>
     length (array_of h0 (WINDOW this)) = nat (rollingCountBuckets opts) \<and>
     (\<forall>slot \<in> set (array_of h0 (WINDOW this)). bucket_of h0 slot = Some bucket) \<and>
     (\<forall>as. \<exists>h1.
        run this h0 as = Inr h1 \<and>
        length (array_of h1 (WINDOW this)) = nat (rollingCountBuckets opts) \<and>
        (\<forall>slot \<in> set (array_of h1 (WINDOW this)). bucket_of h1 slot \<noteq> None) \<and>
        length (array_of (nextBucket (WINDOW this) h1) (WINDOW this)) =
          length (array_of h1 (WINDOW this)))"
proof -
  let ?n = "nat (rollingCountBuckets opts)"
  from assms obtain h0 this where c: "constructor h opts = Inr (h0, this)"
    by (simp add: constructor_eq)
  have n: "0 < ?n" using assms by simp
  have p: "primed ?n h0 this" using assms by (intro constructor_primed(1)[OF _ _ c]) simp_all
  have w: "array_of h0 (WINDOW this) = map (\<lambda>j. Some (length h + 1 + j)) [0..<?n]"
    using assms by (intro constructor_primed(3)[OF _ _ c]) simp_all
  have len: "length (array_of h0 (WINDOW this)) = ?n" using p by (simp add: primed_def)
  have fresh: "\<forall>slot \<in> set (array_of h0 (WINDOW this)). bucket_of h0 slot = Some bucket"
  proof
    fix slot assume "slot \<in> set (array_of h0 (WINDOW this))"
    then obtain i where i: "i < length (buckets_of h0 this)"
      and s: "slot = array_of h0 (WINDOW this) ! i"
      using primed_length_buckets_of[OF p] len by (auto simp: in_set_conv_nth)
    have "buckets_of h0 this ! i = the (bucket_of h0 slot)"
      using i s len primed_length_buckets_of[OF p] by (simp add: primed_buckets_of[OF p])
    moreover have "buckets_of h0 this ! i = bucket"
      using i assms constructor_primed(2)[OF _ _ c] by simp
    moreover have "bucket_of h0 slot \<noteq> None"
      using p \<open>slot \<in> set (array_of h0 (WINDOW this))\<close> by (simp add: primed_def list_all_iff)
    ultimately show "bucket_of h0 slot = Some bucket" by auto
  qed
  have later: "\<exists>h1. run this h0 as = Inr h1 \<and>
        length (array_of h1 (WINDOW this)) = ?n \<and>
        (\<forall>slot \<in> set (array_of h1 (WINDOW this)). bucket_of h1 slot \<noteq> None) \<and>
        length (array_of (nextBucket (WINDOW this) h1) (WINDOW this)) =
          length (array_of h1 (WINDOW this))" for as
  proof -
    from run_primed[OF p n, of as] obtain h1 where
      r: "run this h0 as = Inr h1" and p1: "primed ?n h1 this" by blast
    have p2: "primed ?n (nextBucket (WINDOW this) h1) this"
      using p1 n by (rule nextBucket_primed(1))
    show ?thesis using r p1 p2 by (auto simp: primed_def list_all_iff)
  qed
  show ?thesis using c len fresh later by blast
qed

theorem window_length_invariant_witness:
  "\<exists>h0 this h1.
     constructor []
       \<lparr> rollingCountBuckets = 3, rollingCountTimeout = 1000, rollingPercentilesEnabled = True \<rparr>
       = Inr (h0, this) \<and>
     length (array_of h0 (WINDOW this)) = 3 \<and>
     run this h0 [Rotate, Increment Fires None, Rotate, Rotate, Open, Rotate] = Inr h1 \<and>
     length (array_of h1 (WINDOW this)) = 3 \<and>
     length (array_of (nextBucket (WINDOW this) h1) (WINDOW this)) = 3"
proof -
  let ?opts = "\<lparr> rollingCountBuckets = 3, rollingCountTimeout = 1000,
                  rollingPercentilesEnabled = True \<rparr>"
  have "0 < rollingCountBuckets ?opts" and "rollingCountBuckets ?opts < 2 ^ 32" by simp_all
  from window_length_invariant[OF this, of "[]"] obtain h0 s where
    c: "constructor [] ?opts = Inr (h0, s)"
    and l: "length (array_of h0 (WINDOW s)) = nat (rollingCountBuckets ?opts)"
    and r: "\<forall>as. \<exists>h1. run s h0 as = Inr h1 \<and>
        length (array_of h1 (WINDOW s)) = nat (rollingCountBuckets ?opts) \<and>
        (\<forall>slot \<in> set (array_of h1 (WINDOW s)). bucket_of h1 slot \<noteq> None) \<and>
        length (array_of (nextBucket (WINDOW s) h1) (WINDOW s)) =
          length (array_of h1 (WINDOW s))"
    by blast
  from r obtain h1 where
    "run s h0 [Rotate, Increment Fires None, Rotate, Rotate, Open, Rotate] = Inr h1"
    "length (array_of h1 (WINDOW s)) = nat (rollingCountBuckets ?opts)"
    "length (array_of (nextBucket (WINDOW s) h1) (WINDOW s)) = length (array_of h1 (WINDOW s))"
    by blast
  with c l show ?thesis by (intro exI[of _ h0] exI[of _ s] exI[of _ h1]) simp
qed

theorem window_length_counterexample:
  "constructor []
     \<lparr> rollingCountBuckets = 4294967296, rollingCountTimeout = 1000,
       rollingPercentilesEnabled = True \<rparr>
   = Inl RangeError"
  by (simp add: constructor_fails)


subsection \<open>C6: rotation moves the buckets towards the end\<close>

text \<open>
  C6.  In a window of \<open>n > 0\<close> buckets, a rotation removes the last slot and puts a
  reference to a newly allocated, empty bucket in front.  After \<open>k\<close> rotations the bucket
  that was current before them is unchanged, it is at position \<open>k\<close> when \<open>k < n\<close>, and it is
  no longer in the window when \<open>k \<ge> n\<close>.
\<close>

theorem rotation_evicts_oldest:
  assumes "primed n h this" and "0 < n"
  shows "(array_of (nextBucket (WINDOW this) h) (WINDOW this) =
            Some (length h) # butlast (array_of h (WINDOW this)) \<and>
          Some (length h) \<notin> set (array_of h (WINDOW this)) \<and>
          bucket_of (nextBucket (WINDOW this) h) (Some (length h)) = Some bucket) \<and>
         (\<forall>k. bucket_of (rotations k (WINDOW this) h) (hd (array_of h (WINDOW this))) =
                bucket_of h (hd (array_of h (WINDOW this))) \<and>
              (k < n \<longrightarrow>
                 array_of (rotations k (WINDOW this) h) (WINDOW this) ! k =
                   hd (array_of h (WINDOW this))) \<and>
              (n \<le> k \<longrightarrow>
                 hd (array_of h (WINDOW this)) \<notin>
                   set (array_of (rotations k (WINDOW this) h) (WINDOW this))))"
proof -
  let ?w = "array_of h (WINDOW this)"
  have arr: "is_array h (WINDOW this)" and len: "length ?w = n"
    using assms(1) by (simp_all add: primed_def)
  from primed_current[OF assms] obtain a b where
    ne: "?w \<noteq> []" and hd: "hd ?w = Some a" and b: "bucket_of h (Some a) = Some b"
    by blast
  have a: "a < length h" using b by (rule bucket_of_Some_less)
  have fresh: "Some (length h) \<notin> set ?w"
  proof
    assume "Some (length h) \<in> set ?w"
    with assms(1) obtain b' where "bucket_of h (Some (length h)) = Some b'"
      by (auto simp: primed_def list_all_iff)
    then show False by (auto dest: bucket_of_Some_less)
  qed
  have one: "array_of (nextBucket (WINDOW this) h) (WINDOW this) = Some (length h) # butlast ?w \<and>
          Some (length h) \<notin> set ?w \<and>
          bucket_of (nextBucket (WINDOW this) h) (Some (length h)) = Some bucket"
    using nextBucket_array[OF arr] fresh nextBucket_bucket_new[OF arr] by simp
  have many: "bucket_of (rotations k (WINDOW this) h) (hd ?w) = bucket_of h (hd ?w) \<and>
      (k < n \<longrightarrow> array_of (rotations k (WINDOW this) h) (WINDOW this) ! k = hd ?w) \<and>
      (n \<le> k \<longrightarrow> hd ?w \<notin> set (array_of (rotations k (WINDOW this) h) (WINDOW this)))" for k
  proof (intro conjI impI)
    show "bucket_of (rotations k (WINDOW this) h) (hd ?w) = bucket_of h (hd ?w)"
      unfolding hd by (rule rotations_bucket_old[OF arr a])
    note win = rotations_window[OF assms(2) assms(1), of k, THEN conjunct2, THEN conjunct2]
    let ?news = "map Some (rev [length h..<length h + k])"
    have ln: "length ?news = k" by simp
    show "array_of (rotations k (WINDOW this) h) (WINDOW this) ! k = hd ?w" if "k < n"
    proof -
      have "take n (?news @ ?w) ! k = (?news @ ?w) ! k" using that by (rule nth_take)
      also have "\<dots> = ?w ! 0" using ln by (simp add: nth_append)
      also have "\<dots> = hd ?w" using ne by (simp add: hd_conv_nth)
      finally show ?thesis unfolding win .
    qed
    show "hd ?w \<notin> set (array_of (rotations k (WINDOW this) h) (WINDOW this))" if "n \<le> k"
    proof -
      have "take n (?news @ ?w) = take n ?news" using that ln by simp
      then have "array_of (rotations k (WINDOW this) h) (WINDOW this) = take n ?news"
        unfolding win .
      then have "set (array_of (rotations k (WINDOW this) h) (WINDOW this)) \<subseteq> set ?news"
        using set_take_subset[of n ?news] by (simp only:)
      moreover have "Some a \<notin> set ?news" using a by auto
      ultimately show ?thesis unfolding hd by blast
    qed
  qed
  from one many show ?thesis by blast
qed

theorem rotation_evicts_oldest_witness:
  "\<exists>h0 this.
     constructor []
       \<lparr> rollingCountBuckets = 3, rollingCountTimeout = 1000, rollingPercentilesEnabled = True \<rparr>
       = Inr (h0, this) \<and>
     primed 3 h0 this \<and>
     hd (array_of h0 (WINDOW this)) = Some 1 \<and>
     array_of (nextBucket (WINDOW this) h0) (WINDOW this) =
       Some (length h0) # butlast (array_of h0 (WINDOW this)) \<and>
     array_of (rotations 2 (WINDOW this) h0) (WINDOW this) ! 2 = Some 1 \<and>
     Some 1 \<notin> set (array_of (rotations 3 (WINDOW this) h0) (WINDOW this))"
proof -
  let ?opts = "\<lparr> rollingCountBuckets = 3, rollingCountTimeout = 1000,
                  rollingPercentilesEnabled = True \<rparr>"
  obtain h0 s where c: "constructor [] ?opts = Inr (h0, s)"
    by (simp add: constructor_eq)
  have p: "primed 3 h0 s"
    using constructor_primed(1)[OF _ _ c] by simp
  have "array_of h0 (WINDOW s) = map (\<lambda>j. Some (length ([] :: heap) + 1 + j)) [0..<nat (rollingCountBuckets ?opts)]"
    by (rule constructor_primed(3)[OF _ _ c]) simp_all
  then have hd: "hd (array_of h0 (WINDOW s)) = Some 1"
    by (simp add: upt_rec)
  note T = rotation_evicts_oldest[OF p, simplified hd]
  have t1: "array_of (nextBucket (WINDOW s) h0) (WINDOW s) =
       Some (length h0) # butlast (array_of h0 (WINDOW s))"
    using T by simp
  have t2: "array_of (rotations 2 (WINDOW s) h0) (WINDOW s) ! 2 = Some 1"
    using T[THEN conjunct2, THEN spec, of 2] by simp
  have t3: "Some 1 \<notin> set (array_of (rotations 3 (WINDOW s) h0) (WINDOW s))"
    using T[THEN conjunct2, THEN spec, of 3] by simp
  show ?thesis
    by (rule exI[of _ h0], rule exI[of _ s]) (intro conjI c p hd t1 t2 t3)
qed


subsection \<open>C7: one success, then \<^verbatim>\<open>stats\<close>\<close>

text \<open>
  C7.  On a newly constructed instance with at least one bucket, \<^verbatim>\<open>increment('successes', x)\<close>
  returns normally, and \<^verbatim>\<open>stats\<close> read right after it has \<^verbatim>\<open>successes = 1\<close>; when percentile
  tracking is enabled, the pool of latencies is exactly \<open>[x]\<close>, so \<open>x\<close> is in the latency
  list of the aggregate.
\<close>

theorem increment_successes_then_stats:
  assumes "constructor h opts = Inr (h0, this)" and "0 < rollingCountBuckets opts"
  shows "\<exists>h1.
     increment h0 this Successes (Some x) = Inr h1 \<and>
     successes (stats h1 this) = 1 \<and>
     (percentilesEnabled this \<longrightarrow>
        pooled h1 this = [x] \<and> x \<in> set (latencyTimes (stats h1 this)))"
proof -
  let ?n = "nat (rollingCountBuckets opts)"
  note bounds = constructor_Inr_bounds[OF assms(1)]
  have p: "primed ?n h0 this"
    using bounds by (intro constructor_primed(1)[OF _ _ assms(1)]) simp_all
  have bs: "buckets_of h0 this = replicate ?n bucket"
    using bounds by (intro constructor_primed(2)[OF _ _ assms(1)]) simp_all
  have n: "0 < ?n" using assms(2) by simp
  from primed_current[OF p n] obtain a b where cur: "current h0 this = Inr (a, b)"
    and ne: "array_of h0 (WINDOW this) \<noteq> []"
    and hd: "hd (array_of h0 (WINDOW this)) = Some a" and b: "bucket_of h0 (Some a) = Some b"
    by blast
  have "hd (buckets_of h0 this) = b"
    using ne hd b by (cases "array_of h0 (WINDOW this)") (simp_all add: buckets_of_def)
  then have b': "b = bucket" using bs n by (cases ?n) simp_all
  let ?b1 = "bucket\<lparr> successes := 1, latencyTimes := [x] \<rparr>"
  have inc: "increment h0 this Successes (Some x) = Inr (h0[a := Bucket_obj ?b1])"
    by (simp add: increment_Inr[OF cur] b' bucket_def or_zero_def)
  have bs1: "buckets_of (h0[a := Bucket_obj ?b1]) this = ?b1 # replicate (?n - 1) bucket"
    using bucket_write_primed(2)[OF p cur, of ?b1] bs n by (cases ?n) simp_all
  have "successes (stats (h0[a := Bucket_obj ?b1]) this) = 1"
    unfolding stats_successes bs1 by (simp add: bucket_def)
  moreover have pool: "pooled (h0[a := Bucket_obj ?b1]) this = [x]"
    unfolding pooled_def bs1 by (simp add: bucket_def)
  moreover have "x \<in> set (latencyTimes (stats (h0[a := Bucket_obj ?b1]) this))"
    if "percentilesEnabled this"
    unfolding stats_enabled_latencyTimes[OF that] pool by simp
  ultimately show ?thesis using inc by blast
qed

theorem increment_successes_then_stats_witness:
  "\<exists>h0 this h1.
     constructor []
       \<lparr> rollingCountBuckets = 10, rollingCountTimeout = 10000, rollingPercentilesEnabled = True \<rparr>
       = Inr (h0, this) \<and>
     increment h0 this Successes (Some 42) = Inr h1 \<and>
     successes (stats h1 this) = 1 \<and>
     percentilesEnabled this \<and>
     pooled h1 this = [42] \<and> 42 \<in> set (latencyTimes (stats h1 this))"
proof -
  let ?opts = "\<lparr> rollingCountBuckets = 10, rollingCountTimeout = 10000,
                  rollingPercentilesEnabled = True \<rparr>"
  obtain h0 s where c: "constructor [] ?opts = Inr (h0, s)"
    by (simp add: constructor_eq)
  have on: "percentilesEnabled s" using constructor_fields(1)[OF c] by simp
  have pos: "0 < rollingCountBuckets ?opts" by simp
  from increment_successes_then_stats[OF c pos, of 42] on obtain h1 where
    "increment h0 s Successes (Some 42) = Inr h1" "successes (stats h1 s) = 1"
    "pooled h1 s = [42]" "42 \<in> set (latencyTimes (stats h1 s))"
    by blast
  with c on show ?thesis by blast
qed


subsection \<open>C8: the latency is appended whatever the configuration\<close>

text \<open>
  C8.  Whenever slot 0 of the window holds a bucket, \<^verbatim>\<open>increment\<close> returns normally and
  slot 0 still holds the same object.  For \<^verbatim>\<open>successes\<close>, \<^verbatim>\<open>failures\<close> and \<^verbatim>\<open>timeouts\<close> its
  latency list has grown by one entry at the end, the latency passed, or 0 when none was
  passed; for the six other counters the latency list is unchanged.  Nothing is assumed
  about \<^verbatim>\<open>rollingPercentilesEnabled\<close>.
\<close>

theorem increment_appends_latency:
  assumes "current h this = Inr (a, b)"
  shows "\<exists>h1 b1.
     increment h this property latencyRunTime = Inr h1 \<and>
     current h1 this = Inr (a, b1) \<and>
     latencyTimes b1 =
       (if property \<in> {Successes, Failures, Timeouts}
        then latencyTimes b @ [case latencyRunTime of None \<Rightarrow> 0 | Some x \<Rightarrow> x]
        else latencyTimes b)"
proof -
  let ?b1 = "if property = Successes \<or> property = Failures \<or> property = Timeouts
             then (plusplus property b)\<lparr> latencyTimes :=
                    latencyTimes (plusplus property b) @ [or_zero latencyRunTime] \<rparr>
             else plusplus property b"
  have "increment h this property latencyRunTime = Inr (h[a := Bucket_obj ?b1])"
    by (rule increment_Inr[OF assms])
  moreover have "current (h[a := Bucket_obj ?b1]) this = Inr (a, ?b1)"
    by (rule bucket_write_current[OF assms])
  moreover have "latencyTimes ?b1 =
       (if property \<in> {Successes, Failures, Timeouts}
        then latencyTimes b @ [case latencyRunTime of None \<Rightarrow> 0 | Some x \<Rightarrow> x]
        else latencyTimes b)"
    by (simp add: plusplus_latencyTimes or_zero_eq)
  ultimately show ?thesis by blast
qed

theorem increment_appends_latency_witness:
  "\<exists>h0 this a h1 b1 h2 b2.
     constructor []
       \<lparr> rollingCountBuckets = 2, rollingCountTimeout = 1000, rollingPercentilesEnabled = False \<rparr>
       = Inr (h0, this) \<and>
     \<not> percentilesEnabled this \<and>
     current h0 this = Inr (a, bucket) \<and>
     increment h0 this Failures None = Inr h1 \<and>
     current h1 this = Inr (a, b1) \<and> latencyTimes b1 = [0] \<and>
     increment h1 this Fires (Some 9) = Inr h2 \<and>
     current h2 this = Inr (a, b2) \<and> latencyTimes b2 = [0]"
proof -
  let ?opts = "\<lparr> rollingCountBuckets = 2, rollingCountTimeout = 1000,
                  rollingPercentilesEnabled = False \<rparr>"
  let ?s = "\<lparr> WINDOW = 0, BUCKETS = 2, TIMEOUT = 1000,
       PERCENTILES = [0, 1/4, 1/2, 3/4, 9/10, 19/20, 99/100, 199/200, 1],
       percentilesEnabled = False \<rparr>"
  let ?h0 = "[Array_obj [Some 1, Some 2], Bucket_obj bucket, Bucket_obj bucket]"
  have c: "constructor [] ?opts = Inr (?h0, ?s)"
    by (simp add: constructor_eq numeral_2_eq_2)
  have off: "\<not> percentilesEnabled ?s" by simp
  have cur: "current ?h0 ?s = Inr (1, bucket)"
    by (simp add: current_def array_of_def js_index_def bucket_of_def)
  from increment_appends_latency[OF cur, of Failures None] obtain h1 b1 where
    i1: "increment ?h0 ?s Failures None = Inr h1" and c1: "current h1 ?s = Inr (1, b1)"
    and l1: "latencyTimes b1 = [0]"
    by (auto simp: bucket_def)
  from increment_appends_latency[OF c1, of Fires "Some 9"] obtain h2 b2 where
    i2: "increment h1 ?s Fires (Some 9) = Inr h2" and c2: "current h2 ?s = Inr (1, b2)"
    and l2: "latencyTimes b2 = [0]"
    by (auto simp: l1)
  show ?thesis
    by (rule exI[of _ ?h0], rule exI[of _ ?s], rule exI[of _ 1], rule exI[of _ h1],
        rule exI[of _ b1], rule exI[of _ h2], rule exI[of _ b2])
       (intro conjI c off cur i1 c1 l1 i2 c2 l2)
qed


subsection \<open>C9: the property \<^verbatim>\<open>isCircuitBreakerOpen\<close>\<close>

text \<open>
  C9 (as amended).  A bucket returned by \<^verbatim>\<open>bucket()\<close> has no property
  \<^verbatim>\<open>isCircuitBreakerOpen\<close>, and after a rotation the current bucket is such a bucket, while
  every older bucket is as it was.  The property comes into being by a call of \<^verbatim>\<open>open\<close>,
  which sets it to \<^verbatim>\<open>true\<close> on the current bucket, or of \<^verbatim>\<open>close\<close>, which sets it to
  \<^verbatim>\<open>false\<close>; \<^verbatim>\<open>increment\<close> leaves it as it is; and none of the three changes any other
  bucket.  From the construction on, after every sequence of calls and rotations, the flags
  of the buckets of the window are those that \<open>flags_after\<close> computes from a window of
  buckets without the property: a bucket has a boolean flag exactly when \<^verbatim>\<open>open\<close> or
  \<^verbatim>\<open>close\<close> was called while it was the current one.
\<close>

theorem breaker_flag_absent_until_set:
  "isCircuitBreakerOpen bucket = None \<and>
   (primed n h this \<and> 0 < n \<longrightarrow>
      current (nextBucket (WINDOW this) h) this = Inr (length h, bucket) \<and>
      (\<forall>r. r < length h \<longrightarrow>
         bucket_of (nextBucket (WINDOW this) h) (Some r) = bucket_of h (Some r))) \<and>
   (current h this = Inr (a, b) \<longrightarrow>
      (\<exists>h1. Status_open h this = Inr h1 \<and>
            current h1 this = Inr (a, b\<lparr> isCircuitBreakerOpen := Some True \<rparr>) \<and>
            (\<forall>slot. slot \<noteq> Some a \<longrightarrow> bucket_of h1 slot = bucket_of h slot)) \<and>
      (\<exists>h1. Status_close h this = Inr h1 \<and>
            current h1 this = Inr (a, b\<lparr> isCircuitBreakerOpen := Some False \<rparr>) \<and>
            (\<forall>slot. slot \<noteq> Some a \<longrightarrow> bucket_of h1 slot = bucket_of h slot)) \<and>
      (\<exists>h1 b1. increment h this property latencyRunTime = Inr h1 \<and>
            current h1 this = Inr (a, b1) \<and>
            isCircuitBreakerOpen b1 = isCircuitBreakerOpen b \<and>
            (\<forall>slot. slot \<noteq> Some a \<longrightarrow> bucket_of h1 slot = bucket_of h slot))) \<and>
   (constructor hc opts = Inr (hi, inst) \<and> 0 < rollingCountBuckets opts \<longrightarrow>
      (\<forall>as. \<exists>h1.
         run inst hi as = Inr h1 \<and>
         map isCircuitBreakerOpen (buckets_of h1 inst) =
           foldl flags_after (replicate (nat (rollingCountBuckets opts)) None) as))"
proof (intro conjI impI allI)
  show "isCircuitBreakerOpen bucket = None" by (simp add: bucket_def)
next
  assume "primed n h this \<and> 0 < n"
  then have p: "primed n h this" and n: "0 < n" by simp_all
  have arr: "is_array h (WINDOW this)" using p by (simp add: primed_def)
  show "current (nextBucket (WINDOW this) h) this = Inr (length h, bucket)"
    by (simp add: current_def nextBucket_primed(3)[OF p n] js_index_def
        nextBucket_bucket_new[OF arr])
  fix r assume "r < length h"
  then show "bucket_of (nextBucket (WINDOW this) h) (Some r) = bucket_of h (Some r)"
    by (rule nextBucket_bucket_old[OF arr])
next
  assume c: "current h this = Inr (a, b)"
  from current_Inr[OF c] have b: "bucket_of h (Some a) = Some b" by simp
  show "\<exists>h1. Status_open h this = Inr h1 \<and>
            current h1 this = Inr (a, b\<lparr> isCircuitBreakerOpen := Some True \<rparr>) \<and>
            (\<forall>slot. slot \<noteq> Some a \<longrightarrow> bucket_of h1 slot = bucket_of h slot)"
    by (simp add: Status_open_Inr[OF c] bucket_write_current[OF c] bucket_write_bucket[OF b])
  show "\<exists>h1. Status_close h this = Inr h1 \<and>
            current h1 this = Inr (a, b\<lparr> isCircuitBreakerOpen := Some False \<rparr>) \<and>
            (\<forall>slot. slot \<noteq> Some a \<longrightarrow> bucket_of h1 slot = bucket_of h slot)"
    by (simp add: Status_close_Inr[OF c] bucket_write_current[OF c] bucket_write_bucket[OF b])
  show "\<exists>h1 b1. increment h this property latencyRunTime = Inr h1 \<and>
            current h1 this = Inr (a, b1) \<and>
            isCircuitBreakerOpen b1 = isCircuitBreakerOpen b \<and>
            (\<forall>slot. slot \<noteq> Some a \<longrightarrow> bucket_of h1 slot = bucket_of h slot)"
    by (simp add: increment_Inr[OF c] bucket_write_current[OF c] plusplus_isCircuitBreakerOpen
        bucket_write_bucket[OF b])
next
  fix as
  assume "constructor hc opts = Inr (hi, inst) \<and> 0 < rollingCountBuckets opts"
  then have c: "constructor hc opts = Inr (hi, inst)" and pos: "0 < rollingCountBuckets opts"
    by simp_all
  let ?n = "nat (rollingCountBuckets opts)"
  note bounds = constructor_Inr_bounds[OF c]
  have p: "primed ?n hi inst"
    using bounds by (intro constructor_primed(1)[OF _ _ c]) simp_all
  have bs: "buckets_of hi inst = replicate ?n bucket"
    using bounds by (intro constructor_primed(2)[OF _ _ c]) simp_all
  have n: "0 < ?n" using pos by simp
  have "map isCircuitBreakerOpen (buckets_of hi inst) = replicate ?n None"
    unfolding bs by (simp add: bucket_def)
  with run_flags[OF n p, of as]
  show "\<exists>h1. run inst hi as = Inr h1 \<and>
         map isCircuitBreakerOpen (buckets_of h1 inst) =
           foldl flags_after (replicate ?n None) as"
    by auto
qed

theorem breaker_flag_absent_until_set_witness:
  "\<exists>h0 this h1 h2 h3.
     constructor []
       \<lparr> rollingCountBuckets = 2, rollingCountTimeout = 1000, rollingPercentilesEnabled = True \<rparr>
       = Inr (h0, this) \<and>
     primed 2 h0 this \<and>
     current h0 this = Inr (1, bucket) \<and>
     Status_open h0 this = Inr h1 \<and>
     current h1 this = Inr (1, bucket\<lparr> isCircuitBreakerOpen := Some True \<rparr>) \<and>
     bucket_of h1 (Some 2) = bucket_of h0 (Some 2) \<and>
     Status_close h1 this = Inr h2 \<and>
     current h2 this = Inr (1, bucket\<lparr> isCircuitBreakerOpen := Some False \<rparr>) \<and>
     current (nextBucket (WINDOW this) h2) this = Inr (length h2, bucket) \<and>
     run this h0 [Open, Rotate, Close, Increment Successes (Some 5), Rotate] = Inr h3 \<and>
     map isCircuitBreakerOpen (buckets_of h3 this) = [None, Some False]"
proof -
  let ?opts = "\<lparr> rollingCountBuckets = 2, rollingCountTimeout = 1000,
                  rollingPercentilesEnabled = True \<rparr>"
  let ?s = "\<lparr> WINDOW = 0, BUCKETS = 2, TIMEOUT = 1000,
       PERCENTILES = [0, 1/4, 1/2, 3/4, 9/10, 19/20, 99/100, 199/200, 1],
       percentilesEnabled = True \<rparr>"
  let ?h0 = "[Array_obj [Some 1, Some 2], Bucket_obj bucket, Bucket_obj bucket]"
  have c: "constructor [] ?opts = Inr (?h0, ?s)"
    by (simp add: constructor_eq numeral_2_eq_2)
  have p0: "primed 2 ?h0 ?s" using constructor_primed(1)[OF _ _ c] by simp
  have cur: "current ?h0 ?s = Inr (1, bucket)"
    by (simp add: current_def array_of_def js_index_def bucket_of_def)
  note T0 = breaker_flag_absent_until_set[where h = ?h0 and this = ?s and a = 1 and b = bucket,
      THEN conjunct2, THEN conjunct2, THEN conjunct1, rule_format, OF cur]
  from T0[THEN conjunct1] obtain h1 where
    o: "Status_open ?h0 ?s = Inr h1"
    and c1: "current h1 ?s = Inr (1, bucket\<lparr> isCircuitBreakerOpen := Some True \<rparr>)"
    and f1: "\<forall>slot. slot \<noteq> Some 1 \<longrightarrow> bucket_of h1 slot = bucket_of ?h0 slot"
    by blast
  have f1': "bucket_of h1 (Some 2) = bucket_of ?h0 (Some 2)"
    using f1[THEN spec, of "Some 2"] by simp
  have "h1 = ?h0[1 := Bucket_obj (bucket\<lparr> isCircuitBreakerOpen := Some True \<rparr>)]"
    using o unfolding Status_open_Inr[OF cur] by simp
  then have p1: "primed 2 h1 ?s"
    using bucket_write_primed(1)[OF p0 cur] by (simp only:)
  note T1 = breaker_flag_absent_until_set[where h = h1 and this = ?s and a = 1
      and b = "bucket\<lparr> isCircuitBreakerOpen := Some True \<rparr>",
      THEN conjunct2, THEN conjunct2, THEN conjunct1, rule_format, OF c1]
  from T1[THEN conjunct2, THEN conjunct1] obtain h2 where
    cl: "Status_close h1 ?s = Inr h2"
    and c2: "current h2 ?s = Inr (1, bucket\<lparr> isCircuitBreakerOpen := Some False \<rparr>)"
    by auto
  have "h2 = h1[1 := Bucket_obj (bucket\<lparr> isCircuitBreakerOpen := Some True,
      isCircuitBreakerOpen := Some False \<rparr>)]"
    using cl unfolding Status_close_Inr[OF c1] by simp
  then have p2: "primed 2 h2 ?s"
    using bucket_write_primed(1)[OF p1 c1] by (simp only:)
  have pos: "0 < (2 :: nat)" by simp
  note r = breaker_flag_absent_until_set[where n = 2 and h = h2 and this = ?s,
      THEN conjunct2, THEN conjunct1, rule_format, OF conjI[OF p2 pos], THEN conjunct1]
  have cpos: "constructor [] ?opts = Inr (?h0, ?s) \<and> 0 < rollingCountBuckets ?opts"
    using c by simp
  note R = breaker_flag_absent_until_set[where hc = "[]" and opts = ?opts and hi = ?h0
      and inst = ?s, THEN conjunct2, THEN conjunct2, THEN conjunct2, rule_format, OF cpos]
  from R[of "[Open, Rotate, Close, Increment Successes (Some 5), Rotate]"] obtain h3 where
    r3: "run ?s ?h0 [Open, Rotate, Close, Increment Successes (Some 5), Rotate] = Inr h3"
    and f3: "map isCircuitBreakerOpen (buckets_of h3 ?s) =
       foldl flags_after (replicate (nat (rollingCountBuckets ?opts)) None)
         [Open, Rotate, Close, Increment Successes (Some 5), Rotate]"
    by blast
  have f3': "map isCircuitBreakerOpen (buckets_of h3 ?s) = [None, Some False]"
    unfolding f3 by (simp add: numeral_2_eq_2)
  show ?thesis
    by (rule exI[of _ ?h0], rule exI[of _ ?s], rule exI[of _ h1], rule exI[of _ h2],
        rule exI[of _ h3])
       (intro conjI c p0 cur o c1 f1' cl c2 r r3 f3')
qed

theorem breaker_flag_counterexample:
  "constructor []
     \<lparr> rollingCountBuckets = 1, rollingCountTimeout = 1000, rollingPercentilesEnabled = True \<rparr>
     = Inr ([Array_obj [Some 1], Bucket_obj bucket],
            \<lparr> WINDOW = 0, BUCKETS = 1, TIMEOUT = 1000,
              PERCENTILES = [0, 1/4, 1/2, 3/4, 9/10, 19/20, 99/100, 199/200, 1],
              percentilesEnabled = True \<rparr>) \<and>
   current [Array_obj [Some 1], Bucket_obj bucket]
     \<lparr> WINDOW = 0, BUCKETS = 1, TIMEOUT = 1000,
       PERCENTILES = [0, 1/4, 1/2, 3/4, 9/10, 19/20, 99/100, 199/200, 1],
       percentilesEnabled = True \<rparr>
     = Inr (1, bucket) \<and>
   isCircuitBreakerOpen bucket = None \<and>
   isCircuitBreakerOpen bucket \<noteq> Some True \<and>
   isCircuitBreakerOpen bucket \<noteq> Some False"
  by (simp add: constructor_eq current_def array_of_def js_index_def bucket_of_def)
     (simp add: bucket_def)

subsection \<open>C10: what the constructor rejects\<close>

text \<open>
  C10 (as amended).  The constructor does not validate its options.  It throws, a
  \<^verbatim>\<open>RangeError\<close> of the array allocation, exactly when \<^verbatim>\<open>rollingCountBuckets\<close> is not an
  array length (negative, or \<open>2\<^sup>3\<^sup>2\<close> and more).  Every other configuration is accepted:
  \<^verbatim>\<open>rollingCountBuckets = 0\<close> gives a window of length zero, and \<^verbatim>\<open>rollingCountTimeout\<close>
  is stored whatever its sign.  With zero buckets the timer period is a division by zero,
  which yields a value that is not finite and does not throw.
\<close>

theorem constructor_rejects_only_bad_array_length:
  "(rollingCountBuckets opts < 0 \<or> 2 ^ 32 \<le> rollingCountBuckets opts \<longrightarrow>
      constructor h opts = Inl RangeError) \<and>
   (0 \<le> rollingCountBuckets opts \<and> rollingCountBuckets opts < 2 ^ 32 \<longrightarrow>
      (\<exists>h0 this. constructor h opts = Inr (h0, this) \<and>
         length (array_of h0 (WINDOW this)) = nat (rollingCountBuckets opts) \<and>
         BUCKETS this = rollingCountBuckets opts \<and>
         TIMEOUT this = rollingCountTimeout opts)) \<and>
   (rollingCountBuckets opts = 0 \<longrightarrow>
      bucketInterval (rollingCountTimeout opts) (rollingCountBuckets opts) = NotFinite)"
proof (intro conjI impI)
  assume "rollingCountBuckets opts < 0 \<or> 2 ^ 32 \<le> rollingCountBuckets opts"
  then show "constructor h opts = Inl RangeError" by (rule constructor_fails)
next
  assume "0 \<le> rollingCountBuckets opts \<and> rollingCountBuckets opts < 2 ^ 32"
  then show "\<exists>h0 this. constructor h opts = Inr (h0, this) \<and>
         length (array_of h0 (WINDOW this)) = nat (rollingCountBuckets opts) \<and>
         BUCKETS this = rollingCountBuckets opts \<and>
         TIMEOUT this = rollingCountTimeout opts"
    by (simp add: constructor_eq array_of_def)
next
  assume "rollingCountBuckets opts = 0"
  then show "bucketInterval (rollingCountTimeout opts) (rollingCountBuckets opts) = NotFinite"
    by (simp add: bucketInterval_def)
qed

theorem constructor_rejects_only_bad_array_length_witness:
  "constructor []
     \<lparr> rollingCountBuckets = - 1, rollingCountTimeout = 1000, rollingPercentilesEnabled = True \<rparr>
     = Inl RangeError \<and>
   (\<exists>h0 this.
      constructor []
        \<lparr> rollingCountBuckets = 10, rollingCountTimeout = - 5, rollingPercentilesEnabled = True \<rparr>
        = Inr (h0, this) \<and>
      length (array_of h0 (WINDOW this)) = nat 10 \<and> BUCKETS this = 10 \<and> TIMEOUT this = - 5) \<and>
   (\<exists>h0 this.
      constructor []
        \<lparr> rollingCountBuckets = 0, rollingCountTimeout = 1000, rollingPercentilesEnabled = True \<rparr>
        = Inr (h0, this) \<and>
      length (array_of h0 (WINDOW this)) = nat 0 \<and> BUCKETS this = 0 \<and> TIMEOUT this = 1000) \<and>
   bucketInterval 1000 0 = NotFinite"
  using constructor_rejects_only_bad_array_length
      [of "\<lparr> rollingCountBuckets = - 1, rollingCountTimeout = 1000,
             rollingPercentilesEnabled = True \<rparr>" "[]"]
    constructor_rejects_only_bad_array_length
      [of "\<lparr> rollingCountBuckets = 10, rollingCountTimeout = - 5,
             rollingPercentilesEnabled = True \<rparr>" "[]"]
    constructor_rejects_only_bad_array_length
      [of "\<lparr> rollingCountBuckets = 0, rollingCountTimeout = 1000,
             rollingPercentilesEnabled = True \<rparr>" "[]"]
  by simp

theorem constructor_accepts_zero_counterexample:
  "constructor []
     \<lparr> rollingCountBuckets = 0, rollingCountTimeout = 1000, rollingPercentilesEnabled = True \<rparr>
   = Inr ([Array_obj []],
          \<lparr> WINDOW = 0, BUCKETS = 0, TIMEOUT = 1000,
            PERCENTILES = [0, 1/4, 1/2, 3/4, 9/10, 19/20, 99/100, 199/200, 1],
            percentilesEnabled = True \<rparr>) \<and>
   bucketInterval 1000 0 = NotFinite \<and>
   constructor []
     \<lparr> rollingCountBuckets = 1, rollingCountTimeout = 0, rollingPercentilesEnabled = True \<rparr>
   = Inr ([Array_obj [Some 1], Bucket_obj bucket],
          \<lparr> WINDOW = 0, BUCKETS = 1, TIMEOUT = 0,
            PERCENTILES = [0, 1/4, 1/2, 3/4, 9/10, 19/20, 99/100, 199/200, 1],
            percentilesEnabled = True \<rparr>) \<and>
   bucketInterval 0 1 = Millis 0"
  by (simp add: constructor_eq bucketInterval_def)

end
